theory Spec2Isabelle
  imports Main "HOL-Library.AList"
begin

section \<open>JavaScript strings and the pieces of the regular expressions used\<close>

text \<open>
  A JavaScript string is modelled as a \<^typ>\<open>string\<close>: one \<^typ>\<open>char\<close> per UTF-16 code
  unit, for the code units below 256. The character classes below are the ECMAScript ones
  cut down to that range: \<open>\s\<close> is TAB, LF, VT, FF, CR, SPACE and NBSP; the line
  terminators, which \<open>.\<close> does not match, are LF and CR; the word characters of \<open>\b\<close> are
  the ASCII letters, the digits and the underscore.
\<close>

definition isWhiteSpace :: "char \<Rightarrow> bool" where
  "isWhiteSpace c = (of_char c \<in> {9, 10, 11, 12, 13, 32, 160 :: nat})"

definition isLineTerminator :: "char \<Rightarrow> bool" where
  "isLineTerminator c = (of_char c \<in> {10, 13 :: nat})"

definition isWordChar :: "char \<Rightarrow> bool" where
  "isWordChar c =
     (let n = (of_char c :: nat)
      in (48 \<le> n \<and> n \<le> 57) \<or> (65 \<le> n \<and> n \<le> 90) \<or> n = 95 \<or> (97 \<le> n \<and> n \<le> 122))"

definition isQuote :: "char \<Rightarrow> bool" where
  "isQuote c = (c = CHR 0x27 \<or> c = CHR 0x22)"

definition isFlagLetter :: "char \<Rightarrow> bool" where
  "isFlagLetter c = (c = CHR ''r'' \<or> c = CHR ''f'')"

text \<open>
  Greedy quantifiers with backtracking, in continuation style: \<open>star_then p k\<close> matches
  \<open>p*\<close> and then the rest of the pattern \<open>k\<close>, trying the longest run first and giving
  characters back one at a time while \<open>k\<close> fails; \<open>plus_then\<close> is \<open>p+\<close>.
\<close>

fun star_then :: "(char \<Rightarrow> bool) \<Rightarrow> (string \<Rightarrow> string option) \<Rightarrow> string \<Rightarrow> string option" where
  "star_then p k [] = k []"
| "star_then p k (c # cs) =
     (if p c then (case star_then p k cs of Some r \<Rightarrow> Some r | None \<Rightarrow> k (c # cs))
      else k (c # cs))"

definition plus_then :: "(char \<Rightarrow> bool) \<Rightarrow> (string \<Rightarrow> string option) \<Rightarrow> string \<Rightarrow> string option" where
  "plus_then p k s = (case s of [] \<Rightarrow> None | c # cs \<Rightarrow> if p c then star_then p k cs else None)"

text \<open>The capture group \<open>(.+)\<close> closes the pattern: it takes every character up to the
  next line terminator and needs at least one.\<close>

definition dot_plus_capture :: "string \<Rightarrow> string option" where
  "dot_plus_capture s =
     (let cap = takeWhile (\<lambda>c. \<not> isLineTerminator c) s in if cap = [] then None else Some cap)"

text \<open>The group \<open>-[rf]+\s+\<close>, and \<open>(?:...)?\<close>, which tries the group before leaving it out.\<close>

definition flag_group_then :: "(string \<Rightarrow> string option) \<Rightarrow> string \<Rightarrow> string option" where
  "flag_group_then k s =
     (case s of [] \<Rightarrow> None
      | c # cs \<Rightarrow> if c = CHR ''-'' then plus_then isFlagLetter (plus_then isWhiteSpace k) cs else None)"

definition optional_then ::
  "((string \<Rightarrow> string option) \<Rightarrow> string \<Rightarrow> string option) \<Rightarrow> (string \<Rightarrow> string option) \<Rightarrow> string \<Rightarrow> string option" where
  "optional_then g k s = (case g k s of Some r \<Rightarrow> Some r | None \<Rightarrow> k s)"

text \<open>\<open>rm\s+(?:-[rf]+\s+)?(.+)\<close> matched at the head of the text.\<close>

definition rm_at :: "string \<Rightarrow> string option" where
  "rm_at s =
     (case s of
        r # m # rest \<Rightarrow>
          if r = CHR ''r'' \<and> m = CHR ''m''
          then plus_then isWhiteSpace (optional_then flag_group_then dot_plus_capture) rest
          else None
      | _ \<Rightarrow> None)"

text \<open>\<open>\b\<close>: exactly one of the characters before and after the position is a word
  character; the ends of the text count as non-word characters.\<close>

definition word_boundary :: "bool \<Rightarrow> string \<Rightarrow> bool" where
  "word_boundary prevWord s = (prevWord \<noteq> (case s of [] \<Rightarrow> False | c # _ \<Rightarrow> isWordChar c))"

text \<open>\<open>command.match(/\brm\s+(?:-[rf]+\s+)?(.+)/)\<close>: the leftmost position where the
  pattern matches; the result is capture group 1.\<close>

fun rm_search :: "bool \<Rightarrow> string \<Rightarrow> string option" where
  "rm_search prevWord [] = None"
| "rm_search prevWord (c # cs) =
     (case (if word_boundary prevWord (c # cs) then rm_at (c # cs) else None) of
        Some cap \<Rightarrow> Some cap
      | None \<Rightarrow> rm_search (isWordChar c) cs)"

definition rmMatch :: "string \<Rightarrow> string option" where
  "rmMatch command = rm_search False command"

text \<open>\<open>s.split(/\s+/)\<close>: the fields between the maximal runs of white space; a text that
  begins or ends with white space has an empty first or last field.\<close>

function split_ws :: "string \<Rightarrow> string list" where
  "split_ws s =
     (let field = takeWhile (\<lambda>c. \<not> isWhiteSpace c) s;
          rest = dropWhile (\<lambda>c. \<not> isWhiteSpace c) s
      in if rest = [] then [field] else field # split_ws (dropWhile isWhiteSpace rest))"
  by pat_completeness auto
termination
proof (relation "measure length")
  show "wf (measure length)" by simp
next
  fix s :: string and field rest
  assume rest: "rest = dropWhile (\<lambda>c. \<not> isWhiteSpace c) s" and ne: "rest \<noteq> []"
  from ne obtain c cs where r: "rest = c # cs" by (cases rest) auto
  from rest r have "dropWhile (\<lambda>c. \<not> isWhiteSpace c) s = c # cs" by simp
  then have "isWhiteSpace c" by (simp add: dropWhile_eq_Cons_conv)
  then have "length (dropWhile isWhiteSpace rest) \<le> length cs"
    using r by (simp add: length_dropWhile_le)
  moreover have "length rest \<le> length s" using rest by (simp add: length_dropWhile_le)
  ultimately show "(dropWhile isWhiteSpace rest, s) \<in> measure length" using r by simp
qed

declare split_ws.simps [simp del]

definition trim :: "string \<Rightarrow> string" where
  "trim s = rev (dropWhile isWhiteSpace (rev (dropWhile isWhiteSpace s)))"

definition removeQuotes :: "string \<Rightarrow> string" where
  "removeQuotes s = filter (\<lambda>c. \<not> isQuote c) s"

definition startsWithDash :: "string \<Rightarrow> bool" where
  "startsWithDash p = (case p of [] \<Rightarrow> False | c # _ \<Rightarrow> c = CHR ''-'')"


section \<open>Session events and file changes\<close>

text \<open>The interfaces of \<open>types/session-events.ts\<close>, with the fields the parser and the
  trackers read. An optional field is an \<open>option\<close>; \<open>parentUuid: string | null\<close> is an
  option as well.\<close>

record ToolInput =
  file_path :: "string option"
  old_string :: "string option"
  new_string :: "string option"
  content :: "string option"
  command :: "string option"

datatype MessageContent =
    TextContent string
  | ToolUseContent string string ToolInput
  | ToolResultContent string string

text \<open>\<open>Message.content\<close> is \<open>MessageContent[] | string\<close>.\<close>

datatype Content = ContentString string | ContentItems "MessageContent list"

record Message =
  role :: string
  msgContent :: Content

datatype EventType = User | Assistant | UserMessage | FileHistorySnapshot

record SessionEvent =
  evParentUuid :: "string option"
  evSessionId :: string
  evGitBranch :: "string option"
  etype :: EventType
  message :: "Message option"
  uuid :: string
  evTimestamp :: string

datatype ToolName = Edit | Write | Delete | Heuristic

record FileChange =
  sessionId :: string
  timestamp :: string
  toolName :: ToolName
  filePath :: string
  oldContent :: "string option"
  newContent :: "string option"
  gitBranch :: "string option"
  messageUuid :: string
  parentUuid :: "string option"
  isDeleted :: "bool option"
  isHeuristic :: "bool option"

section \<open>SessionParser.extractFileChanges\<close>

definition editWriteChange :: "SessionEvent \<Rightarrow> string \<Rightarrow> string \<Rightarrow> ToolInput \<Rightarrow> FileChange" where
  "editWriteChange event tool fp input =
     (let change = \<lparr> sessionId = evSessionId event, timestamp = evTimestamp event,
                      toolName = (if tool = ''Edit'' then Edit else Write), filePath = fp,
                      oldContent = None, newContent = None, gitBranch = evGitBranch event,
                      messageUuid = uuid event, parentUuid = evParentUuid event,
                      isDeleted = None, isHeuristic = None \<rparr>
      in if tool = ''Edit''
         then change\<lparr> oldContent := old_string input, newContent := new_string input \<rparr>
         else if tool = ''Write'' then change\<lparr> newContent := content input \<rparr>
         else change)"

definition deleteChange :: "SessionEvent \<Rightarrow> string \<Rightarrow> FileChange" where
  "deleteChange event cleanPath =
     \<lparr> sessionId = evSessionId event, timestamp = evTimestamp event, toolName = Delete,
       filePath = cleanPath, oldContent = None, newContent = None,
       gitBranch = evGitBranch event, messageUuid = uuid event,
       parentUuid = evParentUuid event, isDeleted = Some True, isHeuristic = None \<rparr>"

text \<open>\<open>rmMatch[1].split(/\s+/).filter(p => p && !p.startsWith('-'))\<close>\<close>

definition rmFilePaths :: "string \<Rightarrow> string list" where
  "rmFilePaths cap = filter (\<lambda>p. p \<noteq> [] \<and> \<not> startsWithDash p) (split_ws cap)"

text \<open>The loop over \<open>filePaths\<close>; \<open>changes\<close> is the array the records are pushed on.\<close>

fun rmLoop :: "SessionEvent \<Rightarrow> string list \<Rightarrow> FileChange list \<Rightarrow> FileChange list" where
  "rmLoop event [] changes = changes"
| "rmLoop event (fp # rest) changes =
     (let cleanPath = removeQuotes (trim fp)
      in rmLoop event rest
           (if cleanPath \<noteq> [] then changes @ [deleteChange event cleanPath] else changes))"

text \<open>The body of the loop over the content items of one event.\<close>

definition processItem :: "SessionEvent \<Rightarrow> MessageContent \<Rightarrow> FileChange list \<Rightarrow> FileChange list" where
  "processItem event item changes =
     (case item of
        ToolUseContent tid tool input \<Rightarrow>
          if tool = ''Edit'' \<or> tool = ''Write'' then
            (case file_path input of
               None \<Rightarrow> changes
             | Some fp \<Rightarrow>
                 if fp = [] then changes else changes @ [editWriteChange event tool fp input])
          else if tool = ''Bash'' then
            (let cmd = (case command input of None \<Rightarrow> [] | Some c \<Rightarrow> c)
             in case rmMatch cmd of
                  None \<Rightarrow> changes
                | Some cap \<Rightarrow> rmLoop event (rmFilePaths cap) changes)
          else changes
      | _ \<Rightarrow> changes)"

fun itemsLoop :: "SessionEvent \<Rightarrow> MessageContent list \<Rightarrow> FileChange list \<Rightarrow> FileChange list" where
  "itemsLoop event [] changes = changes"
| "itemsLoop event (item # items) changes = itemsLoop event items (processItem event item changes)"

text \<open>The items the inner loop runs over: none when the event is skipped
  (\<open>event.type !== 'assistant' || !event.message?.content\<close>, where the empty string is
  falsy and the empty array is not), none when the content is not an array.\<close>

definition eventItems :: "SessionEvent \<Rightarrow> MessageContent list" where
  "eventItems event =
     (if etype event \<noteq> Assistant then []
      else case message event of
             None \<Rightarrow> []
           | Some m \<Rightarrow> (case msgContent m of ContentString s \<Rightarrow> [] | ContentItems items \<Rightarrow> items))"

fun eventsLoop :: "SessionEvent list \<Rightarrow> FileChange list \<Rightarrow> FileChange list" where
  "eventsLoop [] changes = changes"
| "eventsLoop (event # events) changes = eventsLoop events (itemsLoop event (eventItems event) changes)"

definition extractFileChanges :: "SessionEvent list \<Rightarrow> FileChange list" where
  "extractFileChanges events = eventsLoop events []"


section \<open>LiveDiffTracker\<close>

text \<open>
  The tracker object (\<open>lastSeenChanges\<close>, \<open>pendingDiffs\<close>, \<open>isEnabled\<close>, \<open>delay\<close>) together
  with the part of the host it acts on: \<open>timers\<close> are the armed timeouts (handle and the
  change its callback closes over), \<open>nextTimeout\<close> is the next fresh handle, \<open>shown\<close> lists
  the calls of \<open>diffTracker.showDiff\<close> in order, and \<open>running\<close> holds the keys of the
  callbacks that have called \<open>showDiff\<close> and have not reached their \<open>finally\<close> block yet.
  \<open>pendingDiffs\<close> is a JavaScript \<open>Map\<close>: an association list in insertion order.
  When an armed timeout fires is left open: any armed timeout may fire at any moment.
\<close>

record LiveWorld =
  lastSeenChanges :: "string set"
  pendingDiffs :: "(string \<times> nat) list"
  isEnabled :: bool
  delay :: nat
  timers :: "(nat \<times> FileChange) list"
  nextTimeout :: nat
  shown :: "FileChange list"
  running :: "string list"

definition newLiveDiffTracker :: LiveWorld where
  "newLiveDiffTracker =
     \<lparr> lastSeenChanges = {}, pendingDiffs = [], isEnabled = False, delay = 1000,
       timers = [], nextTimeout = 0, shown = [], running = [] \<rparr>"

definition getChangeKey :: "FileChange \<Rightarrow> string" where
  "getChangeKey change = sessionId change @ '':'' @ messageUuid change @ '':'' @ filePath change"

definition clearTimeout :: "nat \<Rightarrow> LiveWorld \<Rightarrow> LiveWorld" where
  "clearTimeout h w = w\<lparr> timers := filter (\<lambda>t. fst t \<noteq> h) (timers w) \<rparr>"

fun clearTimeouts :: "nat list \<Rightarrow> LiveWorld \<Rightarrow> LiveWorld" where
  "clearTimeouts [] w = w"
| "clearTimeouts (h # hs) w = clearTimeouts hs (clearTimeout h w)"

definition setEnabled :: "bool \<Rightarrow> LiveWorld \<Rightarrow> LiveWorld" where
  "setEnabled enabled w =
     (let w1 = w\<lparr> isEnabled := enabled \<rparr>
      in if enabled then w1
         else (clearTimeouts (map snd (pendingDiffs w1)) w1)\<lparr> pendingDiffs := [] \<rparr>)"

definition setDelay :: "nat \<Rightarrow> LiveWorld \<Rightarrow> LiveWorld" where
  "setDelay d w = w\<lparr> delay := d \<rparr>"

definition scheduleDiff :: "FileChange \<Rightarrow> LiveWorld \<Rightarrow> LiveWorld" where
  "scheduleDiff change w =
     (let changeKey = getChangeKey change;
          w1 = (case map_of (pendingDiffs w) changeKey of
                  Some h \<Rightarrow> clearTimeout h w
                | None \<Rightarrow> w);
          timeout = nextTimeout w1
      in w1\<lparr> timers := timers w1 @ [(timeout, change)],
              nextTimeout := Suc timeout,
              pendingDiffs := AList.update changeKey timeout (pendingDiffs w1) \<rparr>)"

text \<open>The first loop of \<open>processChanges\<close>: the pair is \<open>newChanges\<close> and the seen-set.\<close>

fun newChangesLoop ::
  "FileChange list \<Rightarrow> FileChange list \<times> string set \<Rightarrow> FileChange list \<times> string set" where
  "newChangesLoop [] acc = acc"
| "newChangesLoop (change # rest) acc =
     (let changeKey = getChangeKey change
      in if changeKey \<in> snd acc then newChangesLoop rest acc
         else newChangesLoop rest (fst acc @ [change], insert changeKey (snd acc)))"

fun scheduleLoop :: "FileChange list \<Rightarrow> LiveWorld \<Rightarrow> LiveWorld" where
  "scheduleLoop [] w = w"
| "scheduleLoop (change # rest) w = scheduleLoop rest (scheduleDiff change w)"

definition processChanges :: "FileChange list \<Rightarrow> bool \<Rightarrow> LiveWorld \<Rightarrow> LiveWorld" where
  "processChanges changes skipOnStartup w =
     (if isEnabled w then
        if changes = [] then w
        else if skipOnStartup then w
        else
          (let r = newChangesLoop changes ([], lastSeenChanges w);
               w1 = w\<lparr> lastSeenChanges := snd r \<rparr>
           in if fst r = [] then w1 else scheduleLoop (fst r) w1)
      else w)"

text \<open>The timeout callback up to its \<open>await\<close>: the timeout is no longer armed and
  \<open>showDiff\<close> has been called with the change.\<close>

definition timerFires :: "nat \<Rightarrow> LiveWorld \<Rightarrow> LiveWorld" where
  "timerFires h w =
     (case map_of (timers w) h of
        None \<Rightarrow> w
      | Some change \<Rightarrow>
          w\<lparr> timers := filter (\<lambda>t. fst t \<noteq> h) (timers w),
             shown := shown w @ [change],
             running := running w @ [getChangeKey change] \<rparr>)"

text \<open>The rest of the callback, once \<open>showDiff\<close> has settled (an error is caught and
  reported): the \<open>finally\<close> block, \<open>pendingDiffs.delete(changeKey)\<close>.\<close>

definition callbackSettles :: "string \<Rightarrow> LiveWorld \<Rightarrow> LiveWorld" where
  "callbackSettles changeKey w =
     (if changeKey \<in> set (running w)
      then w\<lparr> running := remove1 changeKey (running w),
              pendingDiffs := AList.delete changeKey (pendingDiffs w) \<rparr>
      else w)"

definition reset :: "LiveWorld \<Rightarrow> LiveWorld" where
  "reset w =
     (clearTimeouts (map snd (pendingDiffs w)) (w\<lparr> lastSeenChanges := {} \<rparr>))\<lparr> pendingDiffs := [] \<rparr>"

datatype LiveOp =
    ProcessChanges "FileChange list" bool
  | SetEnabled bool
  | SetDelay nat
  | Reset
  | TimerFires nat
  | CallbackSettles string

fun liveStep :: "LiveOp \<Rightarrow> LiveWorld \<Rightarrow> LiveWorld" where
  "liveStep (ProcessChanges changes skipOnStartup) w = processChanges changes skipOnStartup w"
| "liveStep (SetEnabled enabled) w = setEnabled enabled w"
| "liveStep (SetDelay d) w = setDelay d w"
| "liveStep Reset w = reset w"
| "liveStep (TimerFires h) w = timerFires h w"
| "liveStep (CallbackSettles changeKey) w = callbackSettles changeKey w"

fun liveRun :: "LiveOp list \<Rightarrow> LiveWorld \<Rightarrow> LiveWorld" where
  "liveRun [] w = w"
| "liveRun (op # ops) w = liveRun ops (liveStep op w)"

fun isReset :: "LiveOp \<Rightarrow> bool" where
  "isReset Reset = True"
| "isReset _ = False"


section \<open>HeuristicTracker\<close>

text \<open>
  What the tracker reads from the editor is an argument of the model: \<open>TextDocument\<close> and
  \<open>FileUri\<close> carry the properties the code reads; the answer of \<open>shouldExcludeFile\<close>
  (a match of configured patterns) is a predicate \<open>excl\<close> on paths; the clock read by
  \<open>showHeuristicDiff\<close> is a \<open>Clock\<close>; the document \<open>openTextDocument\<close> resolves to is
  an option, \<open>None\<close> when it throws; the result of \<open>path.relative\<close> and \<open>path.sep\<close>
  are arguments of \<open>onDidChange\<close>. Notifications shown to the user and the call of
  \<open>onChangeCallback\<close>, which refreshes the tree view, are left out. A timeout callback
  is one step: the document it waits for is an argument of the step.
\<close>

record TextDocument =
  scheme :: string
  uriString :: string
  fileName :: string
  getText :: string
  languageId :: string
  isUntitled :: bool

record FileUri =
  fsPath :: string
  uriToString :: string

record Clock =
  isoNow :: string
  msNow :: nat

text \<open>The closures handed to \<open>setTimeout\<close>: the file of a create or change event, the
  document and before-contents of a save, the document and contents of a new untitled
  document.\<close>

datatype HTask =
    CreateTask FileUri
  | ChangeTask FileUri
  | SaveTask TextDocument string
  | UntitledTask TextDocument string

record HeuristicWorld =
  fileSnapshots :: "string \<rightharpoonup> string"
  hIsEnabled :: bool
  hDelay :: nat
  showNotifications :: bool
  pendingChanges :: "(string \<times> nat) list"
  fileWatcher :: bool
  heuristicChanges :: "FileChange list"
  hTimers :: "(nat \<times> HTask) list"
  hNextTimeout :: nat

definition newHeuristicTracker :: HeuristicWorld where
  "newHeuristicTracker =
     \<lparr> fileSnapshots = Map.empty, hIsEnabled = False, hDelay = 500, showNotifications = False,
       pendingChanges = [], fileWatcher = False, heuristicChanges = [], hTimers = [],
       hNextTimeout = 0 \<rparr>"

fun decimal :: "nat \<Rightarrow> string" where
  "decimal n =
     (if n < 10 then [char_of (48 + n)] else decimal (n div 10) @ [char_of (48 + n mod 10)])"

declare decimal.simps [simp del]

text \<open>\<open>s.split(sep)\<close> for a separator of one character.\<close>

function split_sep :: "char \<Rightarrow> string \<Rightarrow> string list" where
  "split_sep sep s =
     (let field = takeWhile (\<lambda>c. c \<noteq> sep) s;
          rest = dropWhile (\<lambda>c. c \<noteq> sep) s
      in if rest = [] then [field] else field # split_sep sep (tl rest))"
  by pat_completeness auto
termination
proof (relation "measure (\<lambda>(sep, s). length s)")
  show "wf (measure (\<lambda>(sep, s). length s))" by simp
next
  fix sep :: char and s :: string and field rest
  assume rest: "rest = dropWhile (\<lambda>c. c \<noteq> sep) s" and ne: "rest \<noteq> []"
  have "length rest \<le> length s" using rest by (simp add: length_dropWhile_le)
  moreover have "length (tl rest) < length rest" using ne by (cases rest) auto
  ultimately show "((sep, tl rest), (sep, s)) \<in> measure (\<lambda>(sep, s). length s)" by simp
qed

declare split_sep.simps [simp del]

definition getHeuristicChanges :: "HeuristicWorld \<Rightarrow> FileChange list" where
  "getHeuristicChanges w = heuristicChanges w"

definition hClearTimeout :: "nat \<Rightarrow> HeuristicWorld \<Rightarrow> HeuristicWorld" where
  "hClearTimeout h w = w\<lparr> hTimers := filter (\<lambda>t. fst t \<noteq> h) (hTimers w) \<rparr>"

fun hClearTimeouts :: "nat list \<Rightarrow> HeuristicWorld \<Rightarrow> HeuristicWorld" where
  "hClearTimeouts [] w = w"
| "hClearTimeouts (h # hs) w = hClearTimeouts hs (hClearTimeout h w)"

definition hSetTimeout :: "HTask \<Rightarrow> HeuristicWorld \<Rightarrow> HeuristicWorld" where
  "hSetTimeout task w =
     w\<lparr> hTimers := hTimers w @ [(hNextTimeout w, task)], hNextTimeout := Suc (hNextTimeout w) \<rparr>"

text \<open>The loop of \<open>captureInitialSnapshots\<close> over the visible editors' documents.\<close>

fun captureInitialSnapshots ::
  "(string \<Rightarrow> bool) \<Rightarrow> TextDocument list \<Rightarrow> HeuristicWorld \<Rightarrow> HeuristicWorld" where
  "captureInitialSnapshots excl [] w = w"
| "captureInitialSnapshots excl (doc # docs) w =
     captureInitialSnapshots excl docs
       (if scheme doc \<noteq> ''file'' then w
        else if excl (fileName doc) then w
        else w\<lparr> fileSnapshots := (fileSnapshots w)(uriString doc \<mapsto> getText doc) \<rparr>)"

text \<open>\<open>setEnabled\<close>; \<open>visible\<close> are the documents of the visible editors and
  \<open>hasWorkspace\<close> says whether a workspace folder is open (no watcher is made without).\<close>

definition hSetEnabled ::
  "(string \<Rightarrow> bool) \<Rightarrow> TextDocument list \<Rightarrow> bool \<Rightarrow> bool \<Rightarrow> HeuristicWorld \<Rightarrow> HeuristicWorld" where
  "hSetEnabled excl visible hasWorkspace enabled w =
     (let w1 = w\<lparr> hIsEnabled := enabled \<rparr>
      in if enabled then
           (let w2 = captureInitialSnapshots excl visible w1
            in if hasWorkspace then w2\<lparr> fileWatcher := True \<rparr> else w2)
         else
           (hClearTimeouts (map snd (pendingChanges w1)) (w1\<lparr> fileSnapshots := Map.empty \<rparr>))
             \<lparr> pendingChanges := [], fileWatcher := False \<rparr>)"

definition hSetDelay :: "nat \<Rightarrow> HeuristicWorld \<Rightarrow> HeuristicWorld" where
  "hSetDelay d w = w\<lparr> hDelay := d \<rparr>"

definition setShowNotifications :: "bool \<Rightarrow> HeuristicWorld \<Rightarrow> HeuristicWorld" where
  "setShowNotifications b w = w\<lparr> showNotifications := b \<rparr>"

definition showHeuristicDiff ::
  "Clock \<Rightarrow> string \<Rightarrow> string \<Rightarrow> string \<Rightarrow> string \<Rightarrow> HeuristicWorld \<Rightarrow> HeuristicWorld" where
  "showHeuristicDiff clock name beforeContent afterContent lang w =
     w\<lparr> heuristicChanges := heuristicChanges w @
          [\<lparr> sessionId = ''heuristic'', timestamp = isoNow clock, toolName = Heuristic,
             filePath = name, oldContent = Some beforeContent, newContent = Some afterContent,
             gitBranch = None, messageUuid = ''heuristic-'' @ decimal (msNow clock),
             parentUuid = None, isDeleted = None, isHeuristic = Some True \<rparr>] \<rparr>"

text \<open>The watcher's \<open>onDidCreate\<close> and \<open>onDidChange\<close> handlers, up to \<open>setTimeout\<close>.
  \<open>rel\<close> is \<open>path.relative(workspaceRoot, uri.fsPath)\<close>, \<open>None\<close> when no workspace
  folder is open.\<close>

definition onDidCreate :: "(string \<Rightarrow> bool) \<Rightarrow> FileUri \<Rightarrow> HeuristicWorld \<Rightarrow> HeuristicWorld" where
  "onDidCreate excl uri w =
     (if \<not> hIsEnabled w then w
      else if excl (fsPath uri) then w
      else hSetTimeout (CreateTask uri) w)"

definition onDidChange ::
  "(string \<Rightarrow> bool) \<Rightarrow> char \<Rightarrow> string option \<Rightarrow> FileUri \<Rightarrow> HeuristicWorld \<Rightarrow> HeuristicWorld" where
  "onDidChange excl sep rel uri w =
     (if \<not> hIsEnabled w then w
      else if excl (fsPath uri) then w
      else if fileSnapshots w (uriToString uri) \<noteq> None then w
      else case rel of
             None \<Rightarrow> hSetTimeout (ChangeTask uri) w
           | Some relativePath \<Rightarrow>
               if length (split_sep sep relativePath) > 3 then w
               else hSetTimeout (ChangeTask uri) w)"

definition onWillSaveTextDocument ::
  "(string \<Rightarrow> bool) \<Rightarrow> TextDocument \<Rightarrow> HeuristicWorld \<Rightarrow> HeuristicWorld" where
  "onWillSaveTextDocument excl doc w =
     (if \<not> hIsEnabled w then w
      else if scheme doc \<noteq> ''file'' then w
      else if excl (fileName doc) then w
      else
        (let uri = uriString doc;
             originalContent = (case fileSnapshots w uri of None \<Rightarrow> [] | Some s \<Rightarrow> s);
             w1 = (case map_of (pendingChanges w) uri of
                     Some h \<Rightarrow> hClearTimeout h w
                   | None \<Rightarrow> w);
             timeout = hNextTimeout w1;
             w2 = hSetTimeout (SaveTask doc originalContent) w1
         in w2\<lparr> pendingChanges := AList.update uri timeout (pendingChanges w2) \<rparr>))"

definition onDidOpenTextDocument ::
  "(string \<Rightarrow> bool) \<Rightarrow> TextDocument \<Rightarrow> HeuristicWorld \<Rightarrow> HeuristicWorld" where
  "onDidOpenTextDocument excl doc w =
     (if \<not> hIsEnabled w then w
      else if scheme doc \<noteq> ''file'' then w
      else if excl (fileName doc) then w
      else
        (let uri = uriString doc;
             contents = getText doc;
             isNotInSnapshots = (fileSnapshots w uri = None);
             w1 = w\<lparr> fileSnapshots := (fileSnapshots w)(uri \<mapsto> contents) \<rparr>
         in if isNotInSnapshots \<and> length contents > 0 \<and> isUntitled doc
            then hSetTimeout (UntitledTask doc contents) w1
            else w1))"

definition onDidCloseTextDocument :: "TextDocument \<Rightarrow> HeuristicWorld \<Rightarrow> HeuristicWorld" where
  "onDidCloseTextDocument doc w =
     (if \<not> hIsEnabled w then w
      else
        (let uri = uriString doc;
             w1 = w\<lparr> fileSnapshots := (fileSnapshots w)(uri := None) \<rparr>
         in case map_of (pendingChanges w1) uri of
              Some h \<Rightarrow> (hClearTimeout h w1)\<lparr> pendingChanges := AList.delete uri (pendingChanges w1) \<rparr>
            | None \<Rightarrow> w1))"

text \<open>The timeout callbacks. \<open>opened\<close> is what \<open>openTextDocument\<close> resolves to.\<close>

definition createCallback ::
  "Clock \<Rightarrow> FileUri \<Rightarrow> TextDocument option \<Rightarrow> HeuristicWorld \<Rightarrow> HeuristicWorld" where
  "createCallback clock uri opened w =
     (case opened of
        None \<Rightarrow> w
      | Some doc \<Rightarrow>
          (let contents = getText doc
           in if length contents > 0
              then showHeuristicDiff clock (fsPath uri) [] contents (languageId doc)
                     (w\<lparr> fileSnapshots := (fileSnapshots w)(uriToString uri \<mapsto> contents) \<rparr>)
              else w))"

definition changeCallback ::
  "Clock \<Rightarrow> FileUri \<Rightarrow> TextDocument option \<Rightarrow> HeuristicWorld \<Rightarrow> HeuristicWorld" where
  "changeCallback clock uri opened w =
     (case opened of
        None \<Rightarrow> w
      | Some doc \<Rightarrow>
          (let contents = getText doc
           in if length contents > 0 \<and> length contents < 10000
              then showHeuristicDiff clock (fsPath uri) [] contents (languageId doc)
                     (w\<lparr> fileSnapshots := (fileSnapshots w)(uriToString uri \<mapsto> contents) \<rparr>)
              else w))"

definition saveCallback ::
  "Clock \<Rightarrow> TextDocument \<Rightarrow> string \<Rightarrow> TextDocument option \<Rightarrow> HeuristicWorld \<Rightarrow> HeuristicWorld" where
  "saveCallback clock doc originalContent opened w =
     (let uri = uriString doc;
          w1 = (case opened of
                  None \<Rightarrow> w
                | Some savedDoc \<Rightarrow>
                    (let savedContent = getText savedDoc
                     in if originalContent \<noteq> savedContent
                        then (let w2 = showHeuristicDiff clock (fileName doc) originalContent
                                         savedContent (languageId doc) w
                              in w2\<lparr> fileSnapshots := (fileSnapshots w2)(uri \<mapsto> savedContent) \<rparr>)
                        else w))
      in w1\<lparr> pendingChanges := AList.delete uri (pendingChanges w1) \<rparr>)"

definition untitledCallback :: "Clock \<Rightarrow> TextDocument \<Rightarrow> string \<Rightarrow> HeuristicWorld \<Rightarrow> HeuristicWorld" where
  "untitledCallback clock doc contents w =
     showHeuristicDiff clock (fileName doc) [] contents (languageId doc) w"

text \<open>An armed timeout fires: it is disarmed and its callback runs.\<close>

definition hTimerFires ::
  "Clock \<Rightarrow> nat \<Rightarrow> TextDocument option \<Rightarrow> HeuristicWorld \<Rightarrow> HeuristicWorld" where
  "hTimerFires clock h opened w =
     (case map_of (hTimers w) h of
        None \<Rightarrow> w
      | Some task \<Rightarrow>
          (let w1 = w\<lparr> hTimers := filter (\<lambda>t. fst t \<noteq> h) (hTimers w) \<rparr>
           in case task of
                CreateTask uri \<Rightarrow> createCallback clock uri opened w1
              | ChangeTask uri \<Rightarrow> changeCallback clock uri opened w1
              | SaveTask doc originalContent \<Rightarrow> saveCallback clock doc originalContent opened w1
              | UntitledTask doc contents \<Rightarrow> untitledCallback clock doc contents w1))"

definition hReset :: "HeuristicWorld \<Rightarrow> HeuristicWorld" where
  "hReset w =
     (hClearTimeouts (map snd (pendingChanges w)) (w\<lparr> fileSnapshots := Map.empty \<rparr>))
       \<lparr> pendingChanges := [] \<rparr>"

definition hDispose :: "HeuristicWorld \<Rightarrow> HeuristicWorld" where
  "hDispose w = (hReset w)\<lparr> fileWatcher := False \<rparr>"

datatype HeuristicOp =
    HSetEnabled "TextDocument list" bool bool
  | HSetDelay nat
  | SetShowNotifications bool
  | OnDidCreate FileUri
  | OnDidChange "string option" FileUri
  | OnWillSaveTextDocument TextDocument
  | OnDidOpenTextDocument TextDocument
  | OnDidCloseTextDocument TextDocument
  | HTimerFires Clock nat "TextDocument option"
  | HReset
  | HDispose

fun hStep :: "(string \<Rightarrow> bool) \<Rightarrow> char \<Rightarrow> HeuristicOp \<Rightarrow> HeuristicWorld \<Rightarrow> HeuristicWorld" where
  "hStep excl sep (HSetEnabled visible hasWorkspace enabled) w =
     hSetEnabled excl visible hasWorkspace enabled w"
| "hStep excl sep (HSetDelay d) w = hSetDelay d w"
| "hStep excl sep (SetShowNotifications b) w = setShowNotifications b w"
| "hStep excl sep (OnDidCreate uri) w = onDidCreate excl uri w"
| "hStep excl sep (OnDidChange rel uri) w = onDidChange excl sep rel uri w"
| "hStep excl sep (OnWillSaveTextDocument doc) w = onWillSaveTextDocument excl doc w"
| "hStep excl sep (OnDidOpenTextDocument doc) w = onDidOpenTextDocument excl doc w"
| "hStep excl sep (OnDidCloseTextDocument doc) w = onDidCloseTextDocument doc w"
| "hStep excl sep (HTimerFires clock h opened) w = hTimerFires clock h opened w"
| "hStep excl sep HReset w = hReset w"
| "hStep excl sep HDispose w = hDispose w"

fun hRun :: "(string \<Rightarrow> bool) \<Rightarrow> char \<Rightarrow> HeuristicOp list \<Rightarrow> HeuristicWorld \<Rightarrow> HeuristicWorld" where
  "hRun excl sep [] w = w"
| "hRun excl sep (op # ops) w = hRun excl sep ops (hStep excl sep op w)"

section \<open>Notions used to state the properties\<close>

text \<open>The keys of the changes shown so far and of the changes whose timeout is armed.\<close>

definition deliveryKeys :: "LiveWorld \<Rightarrow> string list" where
  "deliveryKeys w = map getChangeKey (shown w) @ map (\<lambda>t. getChangeKey (snd t)) (timers w)"

text \<open>No key occurs twice among them, and all of them are in the seen-set.\<close>

definition liveInv :: "LiveWorld \<Rightarrow> bool" where
  "liveInv w = (distinct (deliveryKeys w) \<and> set (deliveryKeys w) \<subseteq> lastSeenChanges w)"

text \<open>A key that is in the seen-set, has not been shown and has no armed timeout.\<close>

definition unseenDelivery :: "string \<Rightarrow> LiveWorld \<Rightarrow> bool" where
  "unseenDelivery k w = (k \<in> lastSeenChanges w \<and> k \<notin> set (deliveryKeys w))"

text \<open>Every armed timeout is the one the pending map holds for the key of its change.\<close>

definition held :: "LiveWorld \<Rightarrow> bool" where
  "held w = list_all (\<lambda>t. map_of (pendingDiffs w) (getChangeKey (snd t)) = Some (fst t)) (timers w)"

text \<open>What holds of a tracker from its construction on, as long as it is not reset.\<close>

definition trackedInv :: "LiveWorld \<Rightarrow> bool" where
  "trackedInv w = (liveInv w \<and> set (running w) \<subseteq> set (map getChangeKey (shown w)) \<and> held w)"

text \<open>Two change records for the concrete instances.\<close>

abbreviation (input) sampleChangeA :: FileChange where
  "sampleChangeA \<equiv>
     \<lparr> sessionId = ''s1'', timestamp = ''2025-01-01T00:00:00Z'', toolName = Write,
       filePath = ''/a.txt'', oldContent = None, newContent = Some ''A'', gitBranch = None,
       messageUuid = ''u1'', parentUuid = None, isDeleted = None, isHeuristic = None \<rparr>"

abbreviation (input) sampleChangeB :: FileChange where
  "sampleChangeB \<equiv>
     \<lparr> sessionId = ''s1'', timestamp = ''2025-01-01T00:00:09Z'', toolName = Delete,
       filePath = ''/b.txt'', oldContent = None, newContent = None, gitBranch = None,
       messageUuid = ''u2'', parentUuid = Some ''u1'', isDeleted = Some True, isHeuristic = None \<rparr>"

text \<open>The before-content that the record of a timeout's callback carries.\<close>

fun taskBefore :: "HTask \<Rightarrow> string" where
  "taskBefore (SaveTask doc originalContent) = originalContent"
| "taskBefore _ = []"

text \<open>The object literal of \<open>showHeuristicDiff\<close>.\<close>

abbreviation (input) heuristicRecord :: "Clock \<Rightarrow> string \<Rightarrow> string \<Rightarrow> string \<Rightarrow> FileChange" where
  "heuristicRecord clock name before after \<equiv>
     \<lparr> sessionId = ''heuristic'', timestamp = isoNow clock, toolName = Heuristic,
       filePath = name, oldContent = Some before, newContent = Some after,
       gitBranch = None, messageUuid = ''heuristic-'' @ decimal (msNow clock),
       parentUuid = None, isDeleted = None, isHeuristic = Some True \<rparr>"

text \<open>A document, a watched file and a clock reading for the concrete instances.\<close>

abbreviation (input) sampleDoc :: "string \<Rightarrow> TextDocument" where
  "sampleDoc contents \<equiv>
     \<lparr> scheme = ''file'', uriString = ''file:///w/a.txt'', fileName = ''/w/a.txt'',
       getText = contents, languageId = ''plaintext'', isUntitled = False \<rparr>"

abbreviation (input) sampleUri :: FileUri where
  "sampleUri \<equiv> \<lparr> fsPath = ''/w/src/b.ts'', uriToString = ''file:///w/src/b.ts'' \<rparr>"

abbreviation (input) sampleClock :: Clock where
  "sampleClock \<equiv> \<lparr> isoNow = ''2025-01-01T00:00:00.000Z'', msNow = 1735689600000 \<rparr>"

section \<open>Properties of extractFileChanges\<close>

lemma rmLoop_append: "rmLoop event ps changes = changes @ rmLoop event ps []"
proof (induction ps arbitrary: changes)
  case Nil
  show ?case by simp
next
  case (Cons p ps)
  show ?case
    using Cons.IH [of "changes @ [deleteChange event (removeQuotes (trim p))]"]
          Cons.IH [of "[deleteChange event (removeQuotes (trim p))]"] Cons.IH [of changes]
    by (simp add: Let_def)
qed

lemma rmLoop_Nil_eq:
  "rmLoop event ps [] =
     map (deleteChange event) (filter (\<lambda>p. p \<noteq> []) (map (\<lambda>p. removeQuotes (trim p)) ps))"
proof (induction ps)
  case Nil
  show ?case by simp
next
  case (Cons p ps)
  show ?case
    using Cons.IH rmLoop_append [of event ps "[deleteChange event (removeQuotes (trim p))]"]
    by (simp add: Let_def)
qed

lemma processItem_append: "processItem event item changes = changes @ processItem event item []"
  using rmLoop_append [of event _ changes]
  by (auto simp: processItem_def Let_def split: MessageContent.splits option.splits)

lemma itemsLoop_concat:
  "itemsLoop event items changes = changes @ concat (map (\<lambda>item. processItem event item []) items)"
proof (induction items arbitrary: changes)
  case Nil
  show ?case by simp
next
  case (Cons item items)
  show ?case
    using Cons.IH [of "processItem event item changes"] processItem_append [of event item changes]
    by simp
qed

lemma eventsLoop_concat:
  "eventsLoop events changes =
     changes @ concat (map (\<lambda>event. concat (map (\<lambda>item. processItem event item []) (eventItems event))) events)"
proof (induction events arbitrary: changes)
  case Nil
  show ?case by simp
next
  case (Cons event events)
  show ?case
    using Cons.IH [of "itemsLoop event (eventItems event) changes"]
    by (simp add: itemsLoop_concat)
qed

lemma deleteChange_timestamp:
  "deleteChange (event\<lparr> evTimestamp := t \<rparr>) p = (deleteChange event p)\<lparr> timestamp := t \<rparr>"
  by (simp add: deleteChange_def)

lemma processItem_timestamp:
  "processItem (event\<lparr> evTimestamp := t \<rparr>) item [] =
     map (\<lambda>c. c\<lparr> timestamp := t \<rparr>) (processItem event item [])"
proof (cases item)
  case (ToolUseContent tid tool input)
  show ?thesis
    unfolding ToolUseContent
    by (simp add: processItem_def editWriteChange_def rmLoop_Nil_eq deleteChange_timestamp Let_def
             split: option.splits)
qed (simp_all add: processItem_def)

lemma eventItems_timestamp: "eventItems (event\<lparr> evTimestamp := t \<rparr>) = eventItems event"
  by (simp add: eventItems_def)

lemma extract_timestamps:
  "map (\<lambda>c. c\<lparr> timestamp := [] \<rparr>)
     (extractFileChanges (map (\<lambda>event. event\<lparr> evTimestamp := stamp event \<rparr>) events)) =
   map (\<lambda>c. c\<lparr> timestamp := [] \<rparr>) (extractFileChanges events)"
  unfolding extractFileChanges_def eventsLoop_concat
  by (induction events)
     (simp_all add: eventItems_timestamp processItem_timestamp map_concat comp_def)

lemma extract_append:
  "extractFileChanges (xs @ ys) = extractFileChanges xs @ extractFileChanges ys"
  by (simp add: extractFileChanges_def eventsLoop_concat)

text \<open>
  Claim C8. The records returned by \<open>extractFileChanges\<close> are the records of the first
  event, then those of the second, and so on, and within one event the records of its
  first content item, then those of the second, and so on: the result is the
  concatenation, in input order, of what each item of each event contributes. So the
  records of a list of events followed by another are the records of the first list
  followed by those of the second. The order never depends on the timestamps: records
  extracted from events with any other timestamps differ in their \<open>timestamp\<close> fields
  only.
\<close>

theorem extract_order:
  "extractFileChanges events =
     concat (map (\<lambda>event. concat (map (\<lambda>item. processItem event item []) (eventItems event))) events) \<and>
   extractFileChanges (xs @ ys) = extractFileChanges xs @ extractFileChanges ys \<and>
   map (\<lambda>c. c\<lparr> timestamp := [] \<rparr>)
     (extractFileChanges (map (\<lambda>event. event\<lparr> evTimestamp := stamp event \<rparr>) events)) =
   map (\<lambda>c. c\<lparr> timestamp := [] \<rparr>) (extractFileChanges events)"
  using extract_append [of xs ys] extract_timestamps [of stamp events]
  by (simp add: extractFileChanges_def eventsLoop_concat)

lemma split_ws_unfold:
  "split_ws s =
     (if dropWhile (\<lambda>c. \<not> isWhiteSpace c) s = [] then [takeWhile (\<lambda>c. \<not> isWhiteSpace c) s]
      else takeWhile (\<lambda>c. \<not> isWhiteSpace c) s #
           split_ws (dropWhile isWhiteSpace (dropWhile (\<lambda>c. \<not> isWhiteSpace c) s)))"
  by (subst split_ws.simps, unfold Let_def, rule refl)

lemma split_ws_no_space: "f \<in> set (split_ws s) \<Longrightarrow> c \<in> set f \<Longrightarrow> \<not> isWhiteSpace c"
proof (induction s arbitrary: f rule: split_ws.induct)
  case (1 s)
  let ?field = "takeWhile (\<lambda>c. \<not> isWhiteSpace c) s"
  let ?rest = "dropWhile (\<lambda>c. \<not> isWhiteSpace c) s"
  have field: "\<not> isWhiteSpace c" if "c \<in> set ?field"
    using that by (auto dest: set_takeWhileD)
  show ?case
  proof (cases "?rest = []")
    case True
    from "1.prems"(1) have "f \<in> set [?field]"
      by (subst (asm) split_ws_unfold) (simp only: True refl if_True)
    with "1.prems"(2) field show ?thesis by simp
  next
    case False
    from "1.prems"(1) have "f \<in> set (?field # split_ws (dropWhile isWhiteSpace ?rest))"
      using False by (subst (asm) split_ws_unfold) (simp only: if_False)
    then have "f = ?field \<or> f \<in> set (split_ws (dropWhile isWhiteSpace ?rest))" by simp
    then show ?thesis
    proof
      assume "f = ?field"
      with "1.prems"(2) field show ?thesis by simp
    next
      assume "f \<in> set (split_ws (dropWhile isWhiteSpace ?rest))"
      then show ?thesis using "1.IH" [OF refl refl False] "1.prems"(2) by blast
    qed
  qed
qed

lemma dropWhile_none: "\<forall>c\<in>set p. \<not> P c \<Longrightarrow> dropWhile P p = p"
  by (cases p) auto

lemma trim_no_space: "\<forall>c\<in>set p. \<not> isWhiteSpace c \<Longrightarrow> trim p = p"
proof -
  assume a: "\<forall>c\<in>set p. \<not> isWhiteSpace c"
  then have b: "\<forall>c\<in>set (rev p). \<not> isWhiteSpace c" by simp
  show ?thesis
    unfolding trim_def dropWhile_none [OF a] dropWhile_none [OF b] by simp
qed

lemma trim_fragment: "p \<in> set (rmFilePaths cap) \<Longrightarrow> trim p = p"
  by (rule trim_no_space) (auto simp: rmFilePaths_def dest: split_ws_no_space)


lemma removeQuotes_no_quote: "c \<in> set (removeQuotes s) \<Longrightarrow> \<not> isQuote c"
  by (simp add: removeQuotes_def)

lemma bash_item:
  "command input = Some cmd \<Longrightarrow> rmMatch cmd = Some cap \<Longrightarrow>
   processItem event (ToolUseContent tid ''Bash'' input) changes =
     changes @ map (deleteChange event)
                 (filter (\<lambda>p. p \<noteq> []) (map removeQuotes (rmFilePaths cap)))"
proof -
  assume c: "command input = Some cmd" and m: "rmMatch cmd = Some cap"
  have t: "map (\<lambda>p. removeQuotes (trim p)) (rmFilePaths cap) = map removeQuotes (rmFilePaths cap)"
    by (rule map_cong [OF refl]) (simp add: trim_fragment)
  have "processItem event (ToolUseContent tid ''Bash'' input) changes =
          rmLoop event (rmFilePaths cap) changes"
    by (simp add: processItem_def c m)
  also have "\<dots> = changes @ rmLoop event (rmFilePaths cap) []" by (rule rmLoop_append)
  finally show ?thesis by (simp only: rmLoop_Nil_eq t)
qed

lemma single_event:
  "etype event = Assistant \<Longrightarrow> message event = Some m \<Longrightarrow> msgContent m = ContentItems [item] \<Longrightarrow>
   extractFileChanges [event] = processItem event item []"
  by (simp add: extractFileChanges_def eventItems_def)

lemma rmMatch_two_files: "rmMatch ''rm file1.txt file2.txt'' = Some ''file1.txt file2.txt''"
  by code_simp
lemma rmFilePaths_two_files: "rmFilePaths ''file1.txt file2.txt'' = [''file1.txt'', ''file2.txt'']"
  by code_simp
lemma rmMatch_rf_build: "rmMatch ''rm -rf ./build'' = Some ''./build''"
  by code_simp
lemma rmFilePaths_build: "rmFilePaths ''./build'' = [''./build'']"
  by code_simp
lemma removeQuotes_plain: "removeQuotes ''file1.txt'' = ''file1.txt''" "removeQuotes ''file2.txt'' = ''file2.txt''"
  "removeQuotes ''./build'' = ''./build''"
  by code_simp+

text \<open>
  Claim C4. A Bash tool-use with command \<open>rm file1.txt file2.txt\<close> adds exactly two Delete
  records (\<open>isDeleted\<close> true, no content fields) that share the event's \<open>uuid\<close> as
  \<open>messageUuid\<close>, its \<open>parentUuid\<close> and its timestamp; \<open>rm -rf ./build\<close> adds exactly
  one Delete record, for \<open>./build\<close>: the flag \<open>-rf\<close> is no path. For an assistant event
  whose content is that one item, these records are the whole result.
\<close>
theorem rm_delete_records:
  "(command input = Some ''rm file1.txt file2.txt'' \<longrightarrow>
      processItem event (ToolUseContent tid ''Bash'' input) changes =
        changes @
        [\<lparr> sessionId = evSessionId event, timestamp = evTimestamp event, toolName = Delete,
            filePath = ''file1.txt'', oldContent = None, newContent = None,
            gitBranch = evGitBranch event, messageUuid = uuid event,
            parentUuid = evParentUuid event, isDeleted = Some True, isHeuristic = None \<rparr>,
         \<lparr> sessionId = evSessionId event, timestamp = evTimestamp event, toolName = Delete,
            filePath = ''file2.txt'', oldContent = None, newContent = None,
            gitBranch = evGitBranch event, messageUuid = uuid event,
            parentUuid = evParentUuid event, isDeleted = Some True, isHeuristic = None \<rparr>]) \<and>
   (command input = Some ''rm -rf ./build'' \<longrightarrow>
      processItem event (ToolUseContent tid ''Bash'' input) changes =
        changes @
        [\<lparr> sessionId = evSessionId event, timestamp = evTimestamp event, toolName = Delete,
            filePath = ''./build'', oldContent = None, newContent = None,
            gitBranch = evGitBranch event, messageUuid = uuid event,
            parentUuid = evParentUuid event, isDeleted = Some True, isHeuristic = None \<rparr>]) \<and>
   (etype event = Assistant \<and> message event = Some m \<and>
    msgContent m = ContentItems [ToolUseContent tid ''Bash'' input] \<longrightarrow>
      extractFileChanges [event] = processItem event (ToolUseContent tid ''Bash'' input) [])"
  using bash_item [of input "''rm file1.txt file2.txt''" "''file1.txt file2.txt''" event tid changes]
        bash_item [of input "''rm -rf ./build''" "''./build''" event tid changes]
        single_event [of event m "ToolUseContent tid ''Bash'' input"]
  by (simp add: rmMatch_two_files rmFilePaths_two_files rmMatch_rf_build rmFilePaths_build removeQuotes_plain deleteChange_def)


text \<open>Both commands on concrete events.\<close>
theorem rm_delete_records_witness:
  "extractFileChanges
     [\<lparr> evParentUuid = Some ''u0'', evSessionId = ''s1'', evGitBranch = Some ''main'',
        etype = Assistant,
        message = Some \<lparr> role = ''assistant'', msgContent = ContentItems
          [ToolUseContent ''t1'' ''Bash''
             \<lparr> file_path = None, old_string = None, new_string = None, content = None,
               command = Some ''rm file1.txt file2.txt'' \<rparr>] \<rparr>,
        uuid = ''u1'', evTimestamp = ''2025-01-01T00:00:00Z'' \<rparr>] =
     [\<lparr> sessionId = ''s1'', timestamp = ''2025-01-01T00:00:00Z'', toolName = Delete,
        filePath = ''file1.txt'', oldContent = None, newContent = None,
        gitBranch = Some ''main'', messageUuid = ''u1'', parentUuid = Some ''u0'',
        isDeleted = Some True, isHeuristic = None \<rparr>,
      \<lparr> sessionId = ''s1'', timestamp = ''2025-01-01T00:00:00Z'', toolName = Delete,
        filePath = ''file2.txt'', oldContent = None, newContent = None,
        gitBranch = Some ''main'', messageUuid = ''u1'', parentUuid = Some ''u0'',
        isDeleted = Some True, isHeuristic = None \<rparr>] \<and>
   processItem
     \<lparr> evParentUuid = None, evSessionId = ''s1'', evGitBranch = None, etype = Assistant,
       message = None, uuid = ''u2'', evTimestamp = ''2025-01-01T00:00:05Z'' \<rparr>
     (ToolUseContent ''t2'' ''Bash''
        \<lparr> file_path = None, old_string = None, new_string = None, content = None,
          command = Some ''rm -rf ./build'' \<rparr>) [] =
     [\<lparr> sessionId = ''s1'', timestamp = ''2025-01-01T00:00:05Z'', toolName = Delete,
        filePath = ''./build'', oldContent = None, newContent = None,
        gitBranch = None, messageUuid = ''u2'', parentUuid = None,
        isDeleted = Some True, isHeuristic = None \<rparr>]"
  using rm_delete_records
          [of "\<lparr> file_path = None, old_string = None, new_string = None, content = None,
                 command = Some ''rm file1.txt file2.txt'' \<rparr>"
              "\<lparr> evParentUuid = Some ''u0'', evSessionId = ''s1'', evGitBranch = Some ''main'',
                 etype = Assistant,
                 message = Some \<lparr> role = ''assistant'', msgContent = ContentItems
                   [ToolUseContent ''t1'' ''Bash''
                      \<lparr> file_path = None, old_string = None, new_string = None, content = None,
                        command = Some ''rm file1.txt file2.txt'' \<rparr>] \<rparr>,
                 uuid = ''u1'', evTimestamp = ''2025-01-01T00:00:00Z'' \<rparr>"
              "''t1''" "[]"
              "\<lparr> role = ''assistant'', msgContent = ContentItems
                   [ToolUseContent ''t1'' ''Bash''
                      \<lparr> file_path = None, old_string = None, new_string = None, content = None,
                        command = Some ''rm file1.txt file2.txt'' \<rparr>] \<rparr>"]
        rm_delete_records
          [of "\<lparr> file_path = None, old_string = None, new_string = None, content = None,
                 command = Some ''rm -rf ./build'' \<rparr>"
              "\<lparr> evParentUuid = None, evSessionId = ''s1'', evGitBranch = None, etype = Assistant,
                 message = None, uuid = ''u2'', evTimestamp = ''2025-01-01T00:00:05Z'' \<rparr>"
              "''t2''" "[]"]
  by simp

text \<open>
  Claim C5. An Edit or Write item whose \<open>file_path\<close> is absent or empty adds no record.
  An Edit with a \<open>file_path\<close> and empty \<open>old_string\<close> and \<open>new_string\<close> adds one record
  whose \<open>oldContent\<close> and \<open>newContent\<close> are present and empty. A Write with a
  \<open>file_path\<close> and empty \<open>content\<close> adds one record, with empty \<open>newContent\<close>.
\<close>
theorem edit_write_records:
  "((tool = ''Edit'' \<or> tool = ''Write'') \<and> (file_path input = None \<or> file_path input = Some []) \<longrightarrow>
      processItem event (ToolUseContent tid tool input) changes = changes) \<and>
   (file_path input = Some fp \<and> fp \<noteq> [] \<and> old_string input = Some [] \<and> new_string input = Some [] \<longrightarrow>
      processItem event (ToolUseContent tid ''Edit'' input) changes =
        changes @
        [\<lparr> sessionId = evSessionId event, timestamp = evTimestamp event, toolName = Edit,
            filePath = fp, oldContent = Some [], newContent = Some [],
            gitBranch = evGitBranch event, messageUuid = uuid event,
            parentUuid = evParentUuid event, isDeleted = None, isHeuristic = None \<rparr>]) \<and>
   (file_path input = Some fp \<and> fp \<noteq> [] \<and> content input = Some [] \<longrightarrow>
      processItem event (ToolUseContent tid ''Write'' input) changes =
        changes @
        [\<lparr> sessionId = evSessionId event, timestamp = evTimestamp event, toolName = Write,
            filePath = fp, oldContent = None, newContent = Some [],
            gitBranch = evGitBranch event, messageUuid = uuid event,
            parentUuid = evParentUuid event, isDeleted = None, isHeuristic = None \<rparr>])"
  by (auto simp: processItem_def editWriteChange_def)

text \<open>The three cases on concrete items.\<close>
theorem edit_write_records_witness:
  "processItem
     \<lparr> evParentUuid = None, evSessionId = ''s1'', evGitBranch = None, etype = Assistant,
       message = None, uuid = ''u1'', evTimestamp = ''t'' \<rparr>
     (ToolUseContent ''t1'' ''Edit''
        \<lparr> file_path = Some ''/a.txt'', old_string = Some [], new_string = Some [],
          content = Some [], command = None \<rparr>) [] =
     [\<lparr> sessionId = ''s1'', timestamp = ''t'', toolName = Edit,
        filePath = ''/a.txt'', oldContent = Some [], newContent = Some [],
        gitBranch = None, messageUuid = ''u1'', parentUuid = None,
        isDeleted = None, isHeuristic = None \<rparr>] \<and>
   processItem
     \<lparr> evParentUuid = None, evSessionId = ''s1'', evGitBranch = None, etype = Assistant,
       message = None, uuid = ''u1'', evTimestamp = ''t'' \<rparr>
     (ToolUseContent ''t1'' ''Write''
        \<lparr> file_path = Some ''/a.txt'', old_string = Some [], new_string = Some [],
          content = Some [], command = None \<rparr>) [] =
     [\<lparr> sessionId = ''s1'', timestamp = ''t'', toolName = Write,
        filePath = ''/a.txt'', oldContent = None, newContent = Some [],
        gitBranch = None, messageUuid = ''u1'', parentUuid = None,
        isDeleted = None, isHeuristic = None \<rparr>] \<and>
   processItem
     \<lparr> evParentUuid = None, evSessionId = ''s1'', evGitBranch = None, etype = Assistant,
       message = None, uuid = ''u1'', evTimestamp = ''t'' \<rparr>
     (ToolUseContent ''t1'' ''Edit''
        \<lparr> file_path = Some [], old_string = Some ''x'', new_string = Some ''y'',
          content = None, command = None \<rparr>) [] = []"
  using edit_write_records
          [of "''Edit''"
              "\<lparr> file_path = Some [], old_string = Some ''x'', new_string = Some ''y'',
                 content = None, command = None \<rparr>"
              "\<lparr> evParentUuid = None, evSessionId = ''s1'', evGitBranch = None, etype = Assistant,
                 message = None, uuid = ''u1'', evTimestamp = ''t'' \<rparr>"
              "''t1''" "[]" "''/a.txt''"]
        edit_write_records
          [of "''Edit''"
              "\<lparr> file_path = Some ''/a.txt'', old_string = Some [], new_string = Some [],
                 content = Some [], command = None \<rparr>"
              "\<lparr> evParentUuid = None, evSessionId = ''s1'', evGitBranch = None, etype = Assistant,
                 message = None, uuid = ''u1'', evTimestamp = ''t'' \<rparr>"
              "''t1''" "[]" "''/a.txt''"]
  by simp


text \<open>Two events whose timestamps decrease come out in input order.\<close>
theorem extract_order_witness:
  "map timestamp
     (extractFileChanges
        [\<lparr> evParentUuid = None, evSessionId = ''s1'', evGitBranch = None, etype = Assistant,
           message = Some \<lparr> role = ''assistant'', msgContent = ContentItems
             [ToolUseContent ''t1'' ''Write''
                \<lparr> file_path = Some ''/b.txt'', old_string = None, new_string = None,
                  content = Some ''B'', command = None \<rparr>] \<rparr>,
           uuid = ''u1'', evTimestamp = ''2025-01-02T00:00:00Z'' \<rparr>,
         \<lparr> evParentUuid = Some ''u1'', evSessionId = ''s1'', evGitBranch = None, etype = Assistant,
           message = Some \<lparr> role = ''assistant'', msgContent = ContentItems
             [ToolUseContent ''t2'' ''Edit''
                \<lparr> file_path = Some ''/a.txt'', old_string = Some ''x'', new_string = Some ''y'',
                  content = None, command = None \<rparr>] \<rparr>,
           uuid = ''u2'', evTimestamp = ''2025-01-01T00:00:00Z'' \<rparr>]) =
   [''2025-01-02T00:00:00Z'', ''2025-01-01T00:00:00Z'']"
  using extract_order
          [of "[\<lparr> evParentUuid = None, evSessionId = ''s1'', evGitBranch = None, etype = Assistant,
           message = Some \<lparr> role = ''assistant'', msgContent = ContentItems
             [ToolUseContent ''t1'' ''Write''
                \<lparr> file_path = Some ''/b.txt'', old_string = None, new_string = None,
                  content = Some ''B'', command = None \<rparr>] \<rparr>,
           uuid = ''u1'', evTimestamp = ''2025-01-02T00:00:00Z'' \<rparr>,
         \<lparr> evParentUuid = Some ''u1'', evSessionId = ''s1'', evGitBranch = None, etype = Assistant,
           message = Some \<lparr> role = ''assistant'', msgContent = ContentItems
             [ToolUseContent ''t2'' ''Edit''
                \<lparr> file_path = Some ''/a.txt'', old_string = Some ''x'', new_string = Some ''y'',
                  content = None, command = None \<rparr>] \<rparr>,
           uuid = ''u2'', evTimestamp = ''2025-01-01T00:00:00Z'' \<rparr>]"]
  by (simp add: eventItems_def processItem_def editWriteChange_def)

lemma rmMatch_quoted: "rmMatch (''rm '' @ [CHR 0x22] @ ''my file.txt'' @ [CHR 0x22]) =
             Some ([CHR 0x22] @ ''my file.txt'' @ [CHR 0x22])"
  by code_simp

lemma rmFilePaths_quoted: "map removeQuotes (rmFilePaths ([CHR 0x22] @ ''my file.txt'' @ [CHR 0x22])) = [''my'', ''file.txt'']"
  by code_simp

lemma filePath_deleteChange: "map (filePath \<circ> deleteChange event) ps = ps"
  by (induction ps) (simp_all add: deleteChange_def)

text \<open>
  Claim C9. The paths of the Delete records of a Bash item are got from the text captured
  after \<open>rm\<close> and the optional flag group by splitting it on white space first, dropping
  the empty fragments and those that begin with \<open>-\<close>, and then deleting every quote
  character of each fragment, wherever it stands; fragments left empty are dropped. So
  \<open>rm "my file.txt"\<close> gives one record for \<open>my\<close> and one for \<open>file.txt\<close>, and no path
  of a record contains a quote or a white-space character.
\<close>
theorem rm_path_fragments:
  "(command input = Some cmd \<and> rmMatch cmd = Some cap \<longrightarrow>
      map filePath (processItem event (ToolUseContent tid ''Bash'' input) []) =
        filter (\<lambda>p. p \<noteq> [])
          (map (filter (\<lambda>c. \<not> isQuote c))
             (filter (\<lambda>p. p \<noteq> [] \<and> \<not> startsWithDash p) (split_ws cap)))) \<and>
   (command input = Some (''rm '' @ [CHR 0x22] @ ''my file.txt'' @ [CHR 0x22]) \<longrightarrow>
      map filePath (processItem event (ToolUseContent tid ''Bash'' input) []) = [''my'', ''file.txt'']) \<and>
   (\<forall>r \<in> set (processItem event (ToolUseContent tid ''Bash'' input) []).
      \<forall>c \<in> set (filePath r). \<not> isQuote c \<and> \<not> isWhiteSpace c)"
proof (intro conjI impI)
  assume a: "command input = Some cmd \<and> rmMatch cmd = Some cap"
  have "removeQuotes = filter (\<lambda>c. \<not> isQuote c)" by (rule ext) (simp add: removeQuotes_def)
  then show "map filePath (processItem event (ToolUseContent tid ''Bash'' input) []) =
        filter (\<lambda>p. p \<noteq> [])
          (map (filter (\<lambda>c. \<not> isQuote c))
             (filter (\<lambda>p. p \<noteq> [] \<and> \<not> startsWithDash p) (split_ws cap)))"
    using a bash_item [of input cmd cap event tid "[]"]
    by (simp add: filePath_deleteChange rmFilePaths_def)
next
  assume "command input = Some (''rm '' @ [CHR 0x22] @ ''my file.txt'' @ [CHR 0x22])"
  then show "map filePath (processItem event (ToolUseContent tid ''Bash'' input) []) = [''my'', ''file.txt'']"
    using bash_item [OF _ rmMatch_quoted, of input event tid "[]"] rmFilePaths_quoted
    by (simp add: deleteChange_def)
next
  show "\<forall>r \<in> set (processItem event (ToolUseContent tid ''Bash'' input) []).
      \<forall>c \<in> set (filePath r). \<not> isQuote c \<and> \<not> isWhiteSpace c"
  proof (cases "rmMatch (case command input of None \<Rightarrow> [] | Some c \<Rightarrow> c)")
    case None
    then show ?thesis by (simp add: processItem_def)
  next
    case (Some cap)
    have "processItem event (ToolUseContent tid ''Bash'' input) [] =
            map (deleteChange event) (filter (\<lambda>p. p \<noteq> []) (map removeQuotes (rmFilePaths cap)))"
      using Some bash_item [of "input\<lparr> command := Some (case command input of None \<Rightarrow> [] | Some c \<Rightarrow> c) \<rparr>" _ cap event tid "[]"]
      by (simp add: processItem_def split: option.splits)
    moreover have "\<not> isQuote c \<and> \<not> isWhiteSpace c"
      if "p \<in> set (rmFilePaths cap)" "c \<in> set (removeQuotes p)" for p c
      using that split_ws_no_space [of p cap c]
      by (auto simp: removeQuotes_def rmFilePaths_def)
    ultimately show ?thesis by (auto simp: deleteChange_def)
  qed
qed

text \<open>The quoted path with a space, on a concrete event.\<close>
theorem rm_path_fragments_witness:
  "map filePath
     (processItem
        \<lparr> evParentUuid = None, evSessionId = ''s1'', evGitBranch = None, etype = Assistant,
          message = None, uuid = ''u1'', evTimestamp = ''t'' \<rparr>
        (ToolUseContent ''t1'' ''Bash''
           \<lparr> file_path = None, old_string = None, new_string = None, content = None,
             command = Some (''rm '' @ [CHR 0x22] @ ''my file.txt'' @ [CHR 0x22]) \<rparr>) []) =
     [''my'', ''file.txt'']"
  using rm_path_fragments
          [of "\<lparr> file_path = None, old_string = None, new_string = None, content = None,
                 command = Some (''rm '' @ [CHR 0x22] @ ''my file.txt'' @ [CHR 0x22]) \<rparr>"
              "''rm '' @ [CHR 0x22] @ ''my file.txt'' @ [CHR 0x22]"
              "[CHR 0x22] @ ''my file.txt'' @ [CHR 0x22]"
              "\<lparr> evParentUuid = None, evSessionId = ''s1'', evGitBranch = None, etype = Assistant,
                 message = None, uuid = ''u1'', evTimestamp = ''t'' \<rparr>"
              "''t1''"]
  by simp

section \<open>Properties of LiveDiffTracker\<close>

lemma newChangesLoop_props:
  "\<exists>new. fst (newChangesLoop cs a) = fst a @ new \<and> distinct (map getChangeKey new) \<and>
         set (map getChangeKey new) \<inter> snd a = {} \<and>
         snd (newChangesLoop cs a) = snd a \<union> set (map getChangeKey new)"
proof (induction cs arbitrary: a)
  case Nil
  show ?case by simp
next
  case (Cons c cs)
  show ?case
  proof (cases "getChangeKey c \<in> snd a")
    case True
    then show ?thesis using Cons.IH [of a] by simp
  next
    case False
    obtain new where n: "fst (newChangesLoop cs (fst a @ [c], insert (getChangeKey c) (snd a))) = (fst a @ [c]) @ new"
      "distinct (map getChangeKey new)"
      "set (map getChangeKey new) \<inter> insert (getChangeKey c) (snd a) = {}"
      "snd (newChangesLoop cs (fst a @ [c], insert (getChangeKey c) (snd a))) =
         insert (getChangeKey c) (snd a) \<union> set (map getChangeKey new)"
      using Cons.IH [of "(fst a @ [c], insert (getChangeKey c) (snd a))"] by auto
    show ?thesis
      apply (rule exI [of _ "c # new"])
      using False n by auto
  qed
qed

lemma clearTimeouts_fields:
  "timers (clearTimeouts hs w) = filter (\<lambda>t. fst t \<notin> set hs) (timers w) \<and>
   shown (clearTimeouts hs w) = shown w \<and>
   lastSeenChanges (clearTimeouts hs w) = lastSeenChanges w \<and>
   pendingDiffs (clearTimeouts hs w) = pendingDiffs w \<and>
   running (clearTimeouts hs w) = running w \<and>
   isEnabled (clearTimeouts hs w) = isEnabled w \<and>
   nextTimeout (clearTimeouts hs w) = nextTimeout w"
proof (induction hs arbitrary: w)
  case Nil
  show ?case by simp
next
  case (Cons h hs)
  have "filter (\<lambda>t. fst t \<notin> set hs) (filter (\<lambda>t. fst t \<noteq> h) (timers w)) =
        filter (\<lambda>t. fst t \<notin> set (h # hs)) (timers w)"
    by (induction "timers w") auto
  then show ?case using Cons.IH [of "clearTimeout h w"] by (simp add: clearTimeout_def)
qed

lemma scheduleDiff_fields:
  "\<exists>P. timers (scheduleDiff c w) = filter P (timers w) @ [(nextTimeout w, c)]"
  "shown (scheduleDiff c w) = shown w"
  "lastSeenChanges (scheduleDiff c w) = lastSeenChanges w"
  "running (scheduleDiff c w) = running w"
  by (auto simp: scheduleDiff_def clearTimeout_def Let_def split: option.splits
           intro: exI [of _ "\<lambda>t. True"])

lemma keys_filter_subset:
  "set (map f (filter P xs)) \<subseteq> set (map f xs)"
  by auto

lemma scheduleDiff_keys:
  assumes "distinct (deliveryKeys w)" "getChangeKey c \<notin> set (deliveryKeys w)"
  shows "distinct (deliveryKeys (scheduleDiff c w))"
    and "set (deliveryKeys (scheduleDiff c w)) \<subseteq> insert (getChangeKey c) (set (deliveryKeys w))"
proof -
  obtain P where t: "timers (scheduleDiff c w) = filter P (timers w) @ [(nextTimeout w, c)]"
    using scheduleDiff_fields(1) by blast
  show "distinct (deliveryKeys (scheduleDiff c w))"
    using assms by (auto simp: deliveryKeys_def t scheduleDiff_fields(2) distinct_map_filter)
  show "set (deliveryKeys (scheduleDiff c w)) \<subseteq> insert (getChangeKey c) (set (deliveryKeys w))"
    by (auto simp: deliveryKeys_def t scheduleDiff_fields(2))
qed

lemma scheduleLoop_keys:
  "distinct (deliveryKeys w @ map getChangeKey cs) \<Longrightarrow>
   distinct (deliveryKeys (scheduleLoop cs w)) \<and>
   set (deliveryKeys (scheduleLoop cs w)) \<subseteq> set (deliveryKeys w) \<union> set (map getChangeKey cs) \<and>
   lastSeenChanges (scheduleLoop cs w) = lastSeenChanges w"
proof (induction cs arbitrary: w)
  case Nil
  then show ?case by simp
next
  case (Cons c cs)
  have d: "distinct (deliveryKeys w)" and n: "getChangeKey c \<notin> set (deliveryKeys w)"
    using Cons.prems by auto
  note s = scheduleDiff_keys [OF d n]
  have k1: "getChangeKey c \<notin> set (map getChangeKey cs)" using Cons.prems by auto
  have k2: "set (deliveryKeys w) \<inter> set (map getChangeKey cs) = {}" using Cons.prems by auto
  have "set (deliveryKeys (scheduleDiff c w)) \<inter> set (map getChangeKey cs) = {}"
    using s(2) k1 k2 by blast
  then have "distinct (deliveryKeys (scheduleDiff c w) @ map getChangeKey cs)"
    using Cons.prems s(1) by simp
  from Cons.IH [OF this] show ?case using s(2) by (auto simp: scheduleDiff_fields(3))
qed


lemma deliveryKeys_seen_upd: "deliveryKeys (w\<lparr> lastSeenChanges := S \<rparr>) = deliveryKeys w"
  by (simp add: deliveryKeys_def)

lemma processChanges_keys:
  assumes "liveInv w"
  shows "liveInv (processChanges cs skip w)"
proof -
  obtain new where n: "fst (newChangesLoop cs ([], lastSeenChanges w)) = new"
      "distinct (map getChangeKey new)"
      "set (map getChangeKey new) \<inter> lastSeenChanges w = {}"
      "snd (newChangesLoop cs ([], lastSeenChanges w)) = lastSeenChanges w \<union> set (map getChangeKey new)"
    using newChangesLoop_props [of cs "([], lastSeenChanges w)"] by auto
  let ?w1 = "w\<lparr> lastSeenChanges := snd (newChangesLoop cs ([], lastSeenChanges w)) \<rparr>"
  have dk: "deliveryKeys ?w1 = deliveryKeys w" by (rule deliveryKeys_seen_upd)
  have "set (deliveryKeys w) \<inter> set (map getChangeKey new) = {}"
    using assms n(3) by (auto simp: liveInv_def)
  then have "distinct (deliveryKeys ?w1 @ map getChangeKey new)"
    using assms n(2) by (simp add: dk liveInv_def)
  from scheduleLoop_keys [OF this]
  have "liveInv (scheduleLoop new ?w1)"
    using assms by (auto simp: liveInv_def deliveryKeys_seen_upd n(4))
  moreover have "liveInv ?w1" using assms by (auto simp: liveInv_def deliveryKeys_seen_upd n(4))
  ultimately show ?thesis using assms by (simp add: processChanges_def Let_def n(1))
qed

lemma timerFires_keys:
  assumes "liveInv w"
  shows "liveInv (timerFires h w)"
proof (cases "map_of (timers w) h")
  case None
  then show ?thesis using assms by (simp add: timerFires_def)
next
  case (Some c)
  then have m: "(h, c) \<in> set (timers w)" by (rule map_of_SomeD)
  have d: "distinct (map getChangeKey (shown w))" "distinct (map (\<lambda>t. getChangeKey (snd t)) (timers w))"
    "set (map getChangeKey (shown w)) \<inter> set (map (\<lambda>t. getChangeKey (snd t)) (timers w)) = {}"
    using assms by (auto simp: liveInv_def deliveryKeys_def)
  have inj: "inj_on (\<lambda>t. getChangeKey (snd t)) (set (timers w))"
    using d(2) by (simp add: distinct_map)
  have a: "getChangeKey c \<notin> set (map getChangeKey (shown w))"
    using d(3) m by force
  have b: "getChangeKey c \<notin> set (map (\<lambda>t. getChangeKey (snd t)) (filter (\<lambda>t. fst t \<noteq> h) (timers w)))"
  proof
    assume "getChangeKey c \<in> set (map (\<lambda>t. getChangeKey (snd t)) (filter (\<lambda>t. fst t \<noteq> h) (timers w)))"
    then obtain t where t: "t \<in> set (timers w)" "fst t \<noteq> h" "getChangeKey (snd t) = getChangeKey c"
      by auto
    from t(3) have "(\<lambda>t. getChangeKey (snd t)) t = (\<lambda>t. getChangeKey (snd t)) (h, c)" by simp
    from inj_onD [OF inj this t(1) m] have "t = (h, c)" .
    with t(2) show False by simp
  qed
  have c: "set (map (\<lambda>t. getChangeKey (snd t)) (filter (\<lambda>t. fst t \<noteq> h) (timers w))) \<subseteq>
           set (map (\<lambda>t. getChangeKey (snd t)) (timers w))" by auto
  have "distinct (deliveryKeys (timerFires h w))"
    using d a b c by (auto simp: timerFires_def Some deliveryKeys_def distinct_map_filter)
  moreover have "set (deliveryKeys (timerFires h w)) \<subseteq> lastSeenChanges (timerFires h w)"
    using assms m by (auto simp: timerFires_def Some deliveryKeys_def liveInv_def)
  ultimately show ?thesis by (simp add: liveInv_def)
qed

lemma setEnabled_keys:
  assumes "liveInv w"
  shows "liveInv (setEnabled b w)"
  using assms
  by (auto simp: setEnabled_def liveInv_def deliveryKeys_def Let_def clearTimeouts_fields
                 distinct_map_filter)

lemma liveStep_keys:
  assumes "liveInv w" "\<not> isReset op"
  shows "liveInv (liveStep op w)"
proof (cases op)
  case (ProcessChanges cs skip)
  then show ?thesis using assms processChanges_keys by simp
next
  case (SetEnabled b)
  then show ?thesis using assms setEnabled_keys by simp
next
  case (SetDelay d)
  then show ?thesis using assms by (simp add: setDelay_def liveInv_def deliveryKeys_def)
next
  case Reset
  then show ?thesis using assms by simp
next
  case (TimerFires h)
  then show ?thesis using assms timerFires_keys by simp
next
  case (CallbackSettles k)
  then show ?thesis using assms by (simp add: callbackSettles_def liveInv_def deliveryKeys_def)
qed

lemma liveRun_keys:
  "liveInv w \<Longrightarrow> \<forall>op\<in>set ops. \<not> isReset op \<Longrightarrow> liveInv (liveRun ops w)"
  by (induction ops arbitrary: w) (simp_all add: liveStep_keys)

text \<open>
  What holds of a tracker in which no timeout is armed, as a new one: whatever follows
  without a reset (calls of \<open>processChanges\<close> with any records, submitted again or not,
  with or without suppression, enabling and disabling, changes of the delay, timeouts
  firing in any order, callbacks finishing), no change key is shown twice.
\<close>

lemma delivered_at_most_once:
  assumes "timers w = []" and "\<forall>op\<in>set ops. \<not> isReset op"
  shows "distinct (map getChangeKey (shown (liveRun ops (w\<lparr> shown := [] \<rparr>))))"
proof -
  have "liveInv (w\<lparr> shown := [] \<rparr>)" using assms(1) by (simp add: liveInv_def deliveryKeys_def)
  from liveRun_keys [OF this assms(2)] show ?thesis by (simp add: liveInv_def deliveryKeys_def)
qed


lemma scheduleDiff_keys_subset:
  "set (deliveryKeys (scheduleDiff c w)) \<subseteq> insert (getChangeKey c) (set (deliveryKeys w))"
proof -
  obtain P where t: "timers (scheduleDiff c w) = filter P (timers w) @ [(nextTimeout w, c)]"
    using scheduleDiff_fields(1) by blast
  show ?thesis by (auto simp: deliveryKeys_def t scheduleDiff_fields(2))
qed

lemma scheduleLoop_keys_subset:
  "set (deliveryKeys (scheduleLoop cs w)) \<subseteq> set (deliveryKeys w) \<union> set (map getChangeKey cs) \<and>
   lastSeenChanges (scheduleLoop cs w) = lastSeenChanges w"
proof (induction cs arbitrary: w)
  case Nil
  show ?case by simp
next
  case (Cons c cs)
  show ?case
    using Cons.IH [of "scheduleDiff c w"] scheduleDiff_keys_subset [of c w]
    by (auto simp: scheduleDiff_fields(3))
qed

lemma processChanges_unseenDelivery:
  assumes "unseenDelivery k w"
  shows "unseenDelivery k (processChanges cs skip w)"
proof -
  obtain new where n: "fst (newChangesLoop cs ([], lastSeenChanges w)) = new"
      "set (map getChangeKey new) \<inter> lastSeenChanges w = {}"
      "snd (newChangesLoop cs ([], lastSeenChanges w)) = lastSeenChanges w \<union> set (map getChangeKey new)"
    using newChangesLoop_props [of cs "([], lastSeenChanges w)"] by auto
  let ?w1 = "w\<lparr> lastSeenChanges := snd (newChangesLoop cs ([], lastSeenChanges w)) \<rparr>"
  have k: "k \<notin> set (map getChangeKey new)" using assms n(2) by (auto simp: unseenDelivery_def)
  have "unseenDelivery k ?w1"
    using assms by (simp add: unseenDelivery_def deliveryKeys_seen_upd n(3))
  moreover have "unseenDelivery k (scheduleLoop new ?w1)"
    using assms k scheduleLoop_keys_subset [of new ?w1]
    by (auto simp: unseenDelivery_def deliveryKeys_seen_upd n(3))
  ultimately show ?thesis using assms by (simp add: processChanges_def Let_def n(1))
qed

lemma timerFires_keys_subset: "set (deliveryKeys (timerFires h w)) \<subseteq> set (deliveryKeys w)"
proof (cases "map_of (timers w) h")
  case None
  then show ?thesis by (simp add: timerFires_def)
next
  case (Some c)
  then have "(h, c) \<in> set (timers w)" by (rule map_of_SomeD)
  then show ?thesis by (force simp: timerFires_def Some deliveryKeys_def)
qed

lemma liveStep_unseenDelivery:
  assumes "unseenDelivery k w" "\<not> isReset op"
  shows "unseenDelivery k (liveStep op w)"
proof (cases op)
  case (ProcessChanges cs skip)
  then show ?thesis using assms processChanges_unseenDelivery by simp
next
  case (SetEnabled b)
  then show ?thesis
    using assms
    by (auto simp: setEnabled_def unseenDelivery_def deliveryKeys_def Let_def clearTimeouts_fields)
next
  case (SetDelay d)
  then show ?thesis using assms by (simp add: setDelay_def unseenDelivery_def deliveryKeys_def)
next
  case Reset
  then show ?thesis using assms by simp
next
  case (TimerFires h)
  have "lastSeenChanges (timerFires h w) = lastSeenChanges w"
    by (simp add: timerFires_def split: option.splits)
  then show ?thesis
    using assms timerFires_keys_subset [of h w] TimerFires by (auto simp: unseenDelivery_def)
next
  case (CallbackSettles k)
  then show ?thesis using assms by (simp add: callbackSettles_def unseenDelivery_def deliveryKeys_def)
qed

lemma liveRun_unseenDelivery:
  "unseenDelivery k w \<Longrightarrow> \<forall>op\<in>set ops. \<not> isReset op \<Longrightarrow> unseenDelivery k (liveRun ops w)"
  by (induction ops arbitrary: w) (simp_all add: liveStep_unseenDelivery)

lemma setEnabled_False_fields:
  "pendingDiffs (setEnabled False w) = []"
  "timers (setEnabled False w) = filter (\<lambda>t. fst t \<notin> snd ` set (pendingDiffs w)) (timers w)"
  "shown (setEnabled False w) = shown w"
  "lastSeenChanges (setEnabled False w) = lastSeenChanges w"
  by (simp_all add: setEnabled_def Let_def clearTimeouts_fields)

text \<open>
  What holds of \<open>setEnabled(false)\<close> in every state: it empties the pending map, disarms
  every timeout the map held, calls \<open>showDiff\<close> for none and leaves the seen-set as it
  was. When every armed timeout is one the pending map holds, no timeout is left armed,
  and after enabling again and processing any records, whatever follows without a reset
  shows no change whose key was in the seen-set before the disable.
\<close>

lemma disable_cancels_pending:
  "pendingDiffs (setEnabled False w) = [] \<and>
   (\<forall>p \<in> set (pendingDiffs w). snd p \<notin> fst ` set (timers (setEnabled False w))) \<and>
   shown (setEnabled False w) = shown w \<and>
   lastSeenChanges (setEnabled False w) = lastSeenChanges w \<and>
   (fst ` set (timers w) \<subseteq> snd ` set (pendingDiffs w) \<and> (\<forall>op\<in>set ops. \<not> isReset op) \<longrightarrow>
      timers (setEnabled False w) = [] \<and>
      (\<forall>c \<in> set (shown (liveRun (SetEnabled True # ProcessChanges changes skip # ops)
                          ((setEnabled False w)\<lparr> shown := [] \<rparr>))).
         getChangeKey c \<notin> lastSeenChanges w))"
proof (intro conjI impI)
  show "pendingDiffs (setEnabled False w) = []" by (rule setEnabled_False_fields)
  show "\<forall>p \<in> set (pendingDiffs w). snd p \<notin> fst ` set (timers (setEnabled False w))"
    by (force simp: setEnabled_False_fields)
  show "shown (setEnabled False w) = shown w" by (rule setEnabled_False_fields)
  show "lastSeenChanges (setEnabled False w) = lastSeenChanges w" by (rule setEnabled_False_fields)
next
  assume a: "fst ` set (timers w) \<subseteq> snd ` set (pendingDiffs w) \<and> (\<forall>op\<in>set ops. \<not> isReset op)"
  then have "filter (\<lambda>t. fst t \<notin> snd ` set (pendingDiffs w)) (timers w) = []"
    by (auto simp: filter_empty_conv)
  then show t: "timers (setEnabled False w) = []" by (simp add: setEnabled_False_fields)
  let ?w = "(setEnabled False w)\<lparr> shown := [] \<rparr>"
  let ?ops = "SetEnabled True # ProcessChanges changes skip # ops"
  have nr: "\<forall>op\<in>set ?ops. \<not> isReset op" using a by simp
  show "\<forall>c \<in> set (shown (liveRun ?ops ?w)). getChangeKey c \<notin> lastSeenChanges w"
  proof
    fix c assume c: "c \<in> set (shown (liveRun ?ops ?w))"
    show "getChangeKey c \<notin> lastSeenChanges w"
    proof
      assume "getChangeKey c \<in> lastSeenChanges w"
      then have "unseenDelivery (getChangeKey c) ?w"
        using t by (simp add: unseenDelivery_def deliveryKeys_def setEnabled_False_fields)
      from liveRun_unseenDelivery [OF this nr] c show False
        by (auto simp: unseenDelivery_def deliveryKeys_def)
    qed
  qed
qed

lemma held_iff:
  "held w = (\<forall>t \<in> set (timers w). map_of (pendingDiffs w) (getChangeKey (snd t)) = Some (fst t))"
  by (simp add: held_def list_all_iff)

lemma scheduleDiff_held: "held w \<Longrightarrow> held (scheduleDiff c w)"
  by (auto simp: held_iff scheduleDiff_def clearTimeout_def Let_def update_conv'
           split: option.splits)

lemma scheduleLoop_held:
  "held w \<Longrightarrow> held (scheduleLoop cs w) \<and> running (scheduleLoop cs w) = running w \<and>
     shown (scheduleLoop cs w) = shown w"
proof (induction cs arbitrary: w)
  case Nil
  then show ?case by simp
next
  case (Cons c cs)
  from Cons.IH [OF scheduleDiff_held [OF Cons.prems, of c]]
  show ?case by (simp add: scheduleDiff_fields)
qed

lemma processChanges_held:
  "held w \<Longrightarrow> held (processChanges cs skip w) \<and> running (processChanges cs skip w) = running w \<and>
     shown (processChanges cs skip w) = shown w"
proof -
  assume h: "held w"
  let ?w1 = "w\<lparr> lastSeenChanges := snd (newChangesLoop cs ([], lastSeenChanges w)) \<rparr>"
  have h1: "held ?w1" using h by (simp add: held_iff)
  from scheduleLoop_held [OF h1] h h1 show ?thesis
    by (simp add: processChanges_def Let_def)
qed

lemma held_pending: "held w \<Longrightarrow> fst ` set (timers w) \<subseteq> snd ` set (pendingDiffs w)"
proof
  fix h assume hw: "held w" and "h \<in> fst ` set (timers w)"
  then obtain t where t: "t \<in> set (timers w)" "fst t = h" by auto
  with hw have "map_of (pendingDiffs w) (getChangeKey (snd t)) = Some h" by (simp add: held_iff)
  then have "(getChangeKey (snd t), h) \<in> set (pendingDiffs w)" by (rule map_of_SomeD)
  then show "h \<in> snd ` set (pendingDiffs w)" by force
qed

lemma liveStep_trackedInv:
  assumes "trackedInv w" "\<not> isReset op"
  shows "trackedInv (liveStep op w)"
proof -
  have inv: "liveInv (liveStep op w)" using assms liveStep_keys by (simp add: trackedInv_def)
  have rest: "set (running (liveStep op w)) \<subseteq> set (map getChangeKey (shown (liveStep op w))) \<and>
              held (liveStep op w)"
  proof (cases op)
    case (ProcessChanges cs skip)
    then show ?thesis using assms processChanges_held [of w cs skip] by (simp add: trackedInv_def)
  next
    case (SetEnabled b)
    show ?thesis
    proof (cases b)
      case True
      then show ?thesis using assms SetEnabled by (simp add: trackedInv_def setEnabled_def held_iff)
    next
      case False
      have "filter (\<lambda>t. fst t \<notin> snd ` set (pendingDiffs w)) (timers w) = []"
        using held_pending [of w] assms(1) by (auto simp: trackedInv_def filter_empty_conv)
      then show ?thesis
        using assms SetEnabled False
        by (simp add: trackedInv_def setEnabled_def Let_def clearTimeouts_fields held_iff)
    qed
  next
    case (SetDelay d)
    then show ?thesis using assms by (simp add: trackedInv_def setDelay_def held_iff)
  next
    case Reset
    then show ?thesis using assms by simp
  next
    case (TimerFires h)
    then show ?thesis
      using assms by (auto simp: trackedInv_def timerFires_def held_iff split: option.splits)
  next
    case (CallbackSettles k)
    show ?thesis
    proof (cases "k \<in> set (running w)")
      case False
      then show ?thesis using assms CallbackSettles by (simp add: trackedInv_def callbackSettles_def)
    next
      case True
      then have ks: "k \<in> set (map getChangeKey (shown w))" using assms(1) by (auto simp: trackedInv_def)
      have disj: "set (map getChangeKey (shown w)) \<inter> set (map (\<lambda>t. getChangeKey (snd t)) (timers w)) = {}"
        using assms(1) by (simp add: trackedInv_def liveInv_def deliveryKeys_def)
      have ne: "getChangeKey (snd t) \<noteq> k" if "t \<in> set (timers w)" for t
        using that ks disj by force
      have "held (callbackSettles k w)"
        using assms(1) True ne by (simp add: trackedInv_def callbackSettles_def held_iff delete_conv')
      moreover have "set (running (callbackSettles k w)) \<subseteq> set (map getChangeKey (shown (callbackSettles k w)))"
        using assms(1) True set_remove1_subset [of k "running w"]
        by (auto simp: trackedInv_def callbackSettles_def)
      ultimately show ?thesis using CallbackSettles by simp
    qed
  qed
  from inv rest show ?thesis by (simp add: trackedInv_def)
qed

lemma liveRun_trackedInv:
  "trackedInv w \<Longrightarrow> \<forall>op\<in>set ops. \<not> isReset op \<Longrightarrow> trackedInv (liveRun ops w)"
  by (induction ops arbitrary: w) (simp_all add: liveStep_trackedInv)

text \<open>
  From the construction of the tracker on, without a reset, every armed timeout is held
  in the pending map; a reset of such a tracker leaves no timeout armed. A reset is what
  can break this: see the two runs below.
\<close>

lemma armed_timeouts_are_pending:
  assumes "\<forall>op\<in>set ops. \<not> isReset op"
  shows "fst ` set (timers (liveRun ops newLiveDiffTracker)) \<subseteq>
         snd ` set (pendingDiffs (liveRun ops newLiveDiffTracker))"
proof -
  have "trackedInv newLiveDiffTracker"
    by (simp add: trackedInv_def liveInv_def deliveryKeys_def held_def newLiveDiffTracker_def)
  from liveRun_trackedInv [OF this assms] show ?thesis by (simp add: trackedInv_def held_pending)
qed

lemma reset_disarms:
  "fst ` set (timers w) \<subseteq> snd ` set (pendingDiffs w) \<Longrightarrow> timers (reset w) = []"
  by (auto simp: reset_def clearTimeouts_fields filter_empty_conv)

text \<open>The definitions unfolded to run the tracker on concrete inputs.\<close>

lemmas live_defs = newLiveDiffTracker_def processChanges_def setEnabled_def scheduleDiff_def
  getChangeKey_def clearTimeout_def timerFires_def callbackSettles_def setDelay_def reset_def Let_def

text \<open>
  Claim C1. The claim asks that \<open>processChanges\<close> on an enabled tracker marks every new
  record as seen also when \<open>skipOnStartup\<close> is set, so that a later call with the same
  records schedules nothing. The code returns before its marking loop when
  \<open>skipOnStartup\<close> is set: on an enabled new tracker the call with one record and
  \<open>skipOnStartup\<close> leaves the seen-set empty, and the next call with the same record
  arms a timeout for it.
\<close>
theorem skip_on_startup_marks_nothing:
  "lastSeenChanges (processChanges [sampleChangeA] True (setEnabled True newLiveDiffTracker)) = {} \<and>
   map snd (timers (processChanges [sampleChangeA] False
              (processChanges [sampleChangeA] True (setEnabled True newLiveDiffTracker)))) =
     [sampleChangeA]"
  by (simp add: live_defs)

text \<open>A run that submits the same records three times: each key is shown once.\<close>
lemma delivered_at_most_once_example:
  "map filePath
     (shown (liveRun [SetEnabled True, ProcessChanges [sampleChangeA, sampleChangeA] False,
                      TimerFires 0, ProcessChanges [sampleChangeA, sampleChangeB] False,
                      CallbackSettles ''s1:u1:/a.txt'',
                      ProcessChanges [sampleChangeA, sampleChangeB] False,
                      TimerFires 1, TimerFires 0, TimerFires 2]
               (newLiveDiffTracker\<lparr> shown := [] \<rparr>))) = [''/a.txt'', ''/b.txt''] \<and>
   distinct (map getChangeKey
     (shown (liveRun [SetEnabled True, ProcessChanges [sampleChangeA, sampleChangeA] False,
                      TimerFires 0, ProcessChanges [sampleChangeA, sampleChangeB] False,
                      CallbackSettles ''s1:u1:/a.txt'',
                      ProcessChanges [sampleChangeA, sampleChangeB] False,
                      TimerFires 1, TimerFires 0, TimerFires 2]
               (newLiveDiffTracker\<lparr> shown := [] \<rparr>))))"
  using delivered_at_most_once
          [of newLiveDiffTracker
              "[SetEnabled True, ProcessChanges [sampleChangeA, sampleChangeA] False,
                TimerFires 0, ProcessChanges [sampleChangeA, sampleChangeB] False,
                CallbackSettles ''s1:u1:/a.txt'',
                ProcessChanges [sampleChangeA, sampleChangeB] False,
                TimerFires 1, TimerFires 0, TimerFires 2]"]
  by (simp add: live_defs)

text \<open>A change is scheduled, the tracker is disabled and enabled again, the same record
  is processed again and the timeouts are tried: nothing is shown.\<close>
lemma disable_cancels_pending_example:
  "timers (liveRun [SetEnabled True, ProcessChanges [sampleChangeA] False] newLiveDiffTracker) =
     [(0, sampleChangeA)] \<and>
   timers (setEnabled False
            (liveRun [SetEnabled True, ProcessChanges [sampleChangeA] False] newLiveDiffTracker)) = [] \<and>
   lastSeenChanges (setEnabled False
            (liveRun [SetEnabled True, ProcessChanges [sampleChangeA] False] newLiveDiffTracker)) =
     {''s1:u1:/a.txt''} \<and>
   shown (liveRun (SetEnabled True # ProcessChanges [sampleChangeA] False # [TimerFires 0, TimerFires 1])
            ((setEnabled False
               (liveRun [SetEnabled True, ProcessChanges [sampleChangeA] False] newLiveDiffTracker))
             \<lparr> shown := [] \<rparr>)) = []"
  using disable_cancels_pending
          [of "liveRun [SetEnabled True, ProcessChanges [sampleChangeA] False] newLiveDiffTracker"
              "[TimerFires 0, TimerFires 1]" "[sampleChangeA]" False]
  by (simp add: live_defs)

text \<open>
  Claim C3. The claim asks that between two resets no change key is delivered twice. The
  \<open>finally\<close> block of a timeout callback deletes the pending entry of its key, whichever
  timeout the entry holds. In the run below the timeout of a change fires and its
  callback waits for \<open>showDiff\<close>; the tracker is reset and the same change is processed
  and scheduled again; then the first callback finishes and deletes the entry of the
  second timeout. The next reset finds the pending map empty and leaves that timeout
  armed. After this reset the change is processed once more and scheduled a third time,
  both timeouts fire, and the same key is shown twice with no reset in between.
\<close>
theorem orphaned_timeout_shows_key_twice:
  "timers (liveRun [SetEnabled True, ProcessChanges [sampleChangeA] False, TimerFires 0, Reset,
                    ProcessChanges [sampleChangeA] False, CallbackSettles ''s1:u1:/a.txt'', Reset]
             newLiveDiffTracker) = [(1, sampleChangeA)] \<and>
   lastSeenChanges
     (liveRun [SetEnabled True, ProcessChanges [sampleChangeA] False, TimerFires 0, Reset,
               ProcessChanges [sampleChangeA] False, CallbackSettles ''s1:u1:/a.txt'', Reset]
        newLiveDiffTracker) = {} \<and>
   map getChangeKey
     (shown (liveRun [ProcessChanges [sampleChangeA] False, TimerFires 1, TimerFires 2]
               ((liveRun [SetEnabled True, ProcessChanges [sampleChangeA] False, TimerFires 0, Reset,
                          ProcessChanges [sampleChangeA] False, CallbackSettles ''s1:u1:/a.txt'',
                          Reset]
                   newLiveDiffTracker)\<lparr> shown := [] \<rparr>))) =
     [''s1:u1:/a.txt'', ''s1:u1:/a.txt'']"
  by (simp add: live_defs)

text \<open>
  Claim C7. The claim asks that disabling cancels every scheduled delivery, so that no key
  seen before the disable is delivered after enabling again. In the run below a timeout
  has lost its pending entry to the \<open>finally\<close> block of an earlier callback for the same
  key, as in the run above. \<open>setEnabled(false)\<close> finds the pending map empty and leaves the
  timeout armed; the key is in the seen-set before and after. After enabling again and
  processing the same record, which schedules nothing, the timeout fires and the change
  is shown.
\<close>
theorem disable_misses_orphaned_timeout:
  "lastSeenChanges
     (liveRun [SetEnabled True, ProcessChanges [sampleChangeA] False, TimerFires 0, Reset,
               ProcessChanges [sampleChangeA] False, CallbackSettles ''s1:u1:/a.txt'']
        newLiveDiffTracker) = {''s1:u1:/a.txt''} \<and>
   pendingDiffs
     (liveRun [SetEnabled True, ProcessChanges [sampleChangeA] False, TimerFires 0, Reset,
               ProcessChanges [sampleChangeA] False, CallbackSettles ''s1:u1:/a.txt'']
        newLiveDiffTracker) = [] \<and>
   timers
     (setEnabled False
        (liveRun [SetEnabled True, ProcessChanges [sampleChangeA] False, TimerFires 0, Reset,
                  ProcessChanges [sampleChangeA] False, CallbackSettles ''s1:u1:/a.txt'']
           newLiveDiffTracker)) = [(1, sampleChangeA)] \<and>
   map getChangeKey
     (shown (liveRun [SetEnabled True, ProcessChanges [sampleChangeA] False, TimerFires 1]
               ((setEnabled False
                   (liveRun [SetEnabled True, ProcessChanges [sampleChangeA] False, TimerFires 0,
                             Reset, ProcessChanges [sampleChangeA] False,
                             CallbackSettles ''s1:u1:/a.txt'']
                      newLiveDiffTracker))\<lparr> shown := [] \<rparr>))) =
     [''s1:u1:/a.txt'']"
  by (simp add: live_defs)

section \<open>Properties of HeuristicTracker\<close>

lemma hClearTimeouts_fields:
  "hTimers (hClearTimeouts hs w) = filter (\<lambda>t. fst t \<notin> set hs) (hTimers w) \<and>
   heuristicChanges (hClearTimeouts hs w) = heuristicChanges w \<and>
   fileSnapshots (hClearTimeouts hs w) = fileSnapshots w \<and>
   pendingChanges (hClearTimeouts hs w) = pendingChanges w"
proof (induction hs arbitrary: w)
  case Nil
  show ?case by simp
next
  case (Cons h hs)
  have "filter (\<lambda>t. fst t \<notin> set hs) (filter (\<lambda>t. fst t \<noteq> h) (hTimers w)) =
        filter (\<lambda>t. fst t \<notin> set (h # hs)) (hTimers w)"
    by (induction "hTimers w") auto
  then show ?case using Cons.IH [of "hClearTimeout h w"] by (simp add: hClearTimeout_def)
qed

lemma captureInitialSnapshots_changes:
  "heuristicChanges (captureInitialSnapshots excl docs w) = heuristicChanges w"
  by (induction docs arbitrary: w) simp_all

lemma hTimerFires_record:
  "map_of (hTimers w) h = Some task \<Longrightarrow>
   heuristicChanges (hTimerFires clock h opened w) = heuristicChanges w \<or>
   (\<exists>name after. heuristicChanges (hTimerFires clock h opened w) =
       heuristicChanges w @ [heuristicRecord clock name (taskBefore task) after])"
  by (cases task)
     (auto simp: hTimerFires_def createCallback_def changeCallback_def saveCallback_def
                 untitledCallback_def showHeuristicDiff_def Let_def split: option.splits)

lemma hStep_other:
  "(\<forall>clock h opened. op \<noteq> HTimerFires clock h opened) \<Longrightarrow>
   heuristicChanges (hStep excl sep op w) = heuristicChanges w"
  by (cases op)
     (auto simp: hSetEnabled_def hSetDelay_def setShowNotifications_def onDidCreate_def
                 onDidChange_def onWillSaveTextDocument_def onDidOpenTextDocument_def
                 onDidCloseTextDocument_def hReset_def hDispose_def hSetTimeout_def
                 hClearTimeout_def hClearTimeouts_fields captureInitialSnapshots_changes Let_def
           split: option.splits)

lemma onWillSave_task:
  "hIsEnabled w \<Longrightarrow> scheme doc = ''file'' \<Longrightarrow> \<not> excl (fileName doc) \<Longrightarrow>
   last (hTimers (onWillSaveTextDocument excl doc w)) =
     (hNextTimeout w,
      SaveTask doc (case fileSnapshots w (uriString doc) of None \<Rightarrow> [] | Some s \<Rightarrow> s))"
  by (simp add: onWillSaveTextDocument_def hSetTimeout_def hClearTimeout_def Let_def
           split: option.splits)


text \<open>The definitions unfolded to run the tracker on concrete inputs.\<close>

lemmas heuristic_defs = newHeuristicTracker_def hSetEnabled_def hSetDelay_def
  setShowNotifications_def onDidCreate_def onDidChange_def onWillSaveTextDocument_def
  onDidOpenTextDocument_def onDidCloseTextDocument_def hReset_def hDispose_def hSetTimeout_def
  hClearTimeout_def hTimerFires_def createCallback_def changeCallback_def saveCallback_def
  untitledCallback_def showHeuristicDiff_def getHeuristicChanges_def Let_def

lemma digit_chars:
  "char_of (48::nat) = CHR ''0''" "char_of (49::nat) = CHR ''1''" "char_of (50::nat) = CHR ''2''"
  "char_of (51::nat) = CHR ''3''" "char_of (52::nat) = CHR ''4''" "char_of (53::nat) = CHR ''5''"
  "char_of (54::nat) = CHR ''6''" "char_of (55::nat) = CHR ''7''" "char_of (56::nat) = CHR ''8''"
  "char_of (57::nat) = CHR ''9''"
  by code_simp+

lemma decimal_sample: "decimal 1735689600000 = ''1735689600000''"
  by (simp add: decimal.simps digit_chars)

text \<open>
  Claim C2, as stated, fails on the save path: a document is open with text \<open>old\<close> when
  tracking is enabled, it is saved with text \<open>new\<close>, and the record stored when the
  timeout fires has \<open>oldContent\<close> \<open>old\<close>, not the empty string.
\<close>
theorem save_record_keeps_before_content:
  "map oldContent
     (heuristicChanges
        (hRun (\<lambda>p. False) CHR ''/''
           [HSetEnabled [sampleDoc ''old''] True True,
            OnWillSaveTextDocument (sampleDoc ''new''),
            HTimerFires sampleClock 0 (Some (sampleDoc ''new''))]
           newHeuristicTracker)) = [Some ''old'']"
  by (simp add: heuristic_defs)

text \<open>
  Claim C2, amended. Records are added to \<open>heuristicChanges\<close> by timeout callbacks only,
  at most one per callback, and every record added has \<open>isHeuristic\<close> true and
  \<open>toolName\<close> Heuristic. Its \<open>oldContent\<close> is the empty string on the creation, the
  external-change and the untitled-document path; on the save path it is the
  before-content the save captured, which is the snapshot stored for the document when
  \<open>onWillSaveTextDocument\<close> ran, or the empty string when there was none.
\<close>
theorem heuristic_record_shape:
  "((\<forall>clock h opened. op \<noteq> HTimerFires clock h opened) \<longrightarrow>
      heuristicChanges (hStep excl sep op w) = heuristicChanges w) \<and>
   (map_of (hTimers w) h = None \<longrightarrow>
      heuristicChanges (hTimerFires clock h opened w) = heuristicChanges w) \<and>
   (map_of (hTimers w) h = Some task \<longrightarrow>
      heuristicChanges (hTimerFires clock h opened w) = heuristicChanges w \<or>
      (\<exists>name after. heuristicChanges (hTimerFires clock h opened w) =
         heuristicChanges w @
         [\<lparr> sessionId = ''heuristic'', timestamp = isoNow clock, toolName = Heuristic,
             filePath = name, oldContent = Some (taskBefore task), newContent = Some after,
             gitBranch = None, messageUuid = ''heuristic-'' @ decimal (msNow clock),
             parentUuid = None, isDeleted = None, isHeuristic = Some True \<rparr>])) \<and>
   taskBefore (CreateTask uri) = [] \<and> taskBefore (ChangeTask uri) = [] \<and>
   taskBefore (UntitledTask doc contents) = [] \<and>
   taskBefore (SaveTask doc originalContent) = originalContent \<and>
   (hIsEnabled w \<and> scheme doc = ''file'' \<and> \<not> excl (fileName doc) \<longrightarrow>
      last (hTimers (onWillSaveTextDocument excl doc w)) =
        (hNextTimeout w,
         SaveTask doc (case fileSnapshots w (uriString doc) of None \<Rightarrow> [] | Some s \<Rightarrow> s)))"
  using hStep_other [of op excl sep w] hTimerFires_record [of w h task clock opened]
        onWillSave_task [of w doc excl]
  by (auto simp: hTimerFires_def)

text \<open>The record of a save and the record of a created file.\<close>
theorem heuristic_record_shape_witness:
  "heuristicChanges
     (hTimerFires sampleClock 0 (Some (sampleDoc ''new''))
        (onWillSaveTextDocument (\<lambda>p. False) (sampleDoc ''new'')
           (hSetEnabled (\<lambda>p. False) [sampleDoc ''old''] True True newHeuristicTracker))) =
     [\<lparr> sessionId = ''heuristic'', timestamp = ''2025-01-01T00:00:00.000Z'', toolName = Heuristic,
        filePath = ''/w/a.txt'', oldContent = Some ''old'', newContent = Some ''new'',
        gitBranch = None, messageUuid = ''heuristic-1735689600000'',
        parentUuid = None, isDeleted = None, isHeuristic = Some True \<rparr>] \<and>
   heuristicChanges
     (hTimerFires sampleClock 0 (Some (sampleDoc ''created''))
        (onDidCreate (\<lambda>p. False) sampleUri
           (hSetEnabled (\<lambda>p. False) [] True True newHeuristicTracker))) =
     [\<lparr> sessionId = ''heuristic'', timestamp = ''2025-01-01T00:00:00.000Z'', toolName = Heuristic,
        filePath = ''/w/src/b.ts'', oldContent = Some [], newContent = Some ''created'',
        gitBranch = None, messageUuid = ''heuristic-1735689600000'',
        parentUuid = None, isDeleted = None, isHeuristic = Some True \<rparr>]"
  using heuristic_record_shape
          [where op = "OnWillSaveTextDocument (sampleDoc ''new'')" and excl = "\<lambda>p. False"
             and sep = "CHR ''/''"
             and w = "onWillSaveTextDocument (\<lambda>p. False) (sampleDoc ''new'')
                 (hSetEnabled (\<lambda>p. False) [sampleDoc ''old''] True True newHeuristicTracker)"
             and h = 0 and clock = sampleClock and opened = "Some (sampleDoc ''new'')"
             and task = "SaveTask (sampleDoc ''new'') ''old''" and doc = "sampleDoc ''new''"
             and uri = sampleUri and contents = "''new''" and originalContent = "''old''"]
  by (simp add: heuristic_defs decimal_sample)


lemma split_sep_sample:
  "length (split_sep CHR ''/'' ''src/a/b/c.ts'') = 4" "length (split_sep CHR ''/'' ''src/b.ts'') = 2"
  by code_simp+

text \<open>
  Claim C6. No record is stored, and after a change notification no timeout is even armed,
  when the notification is for a path without snapshot whose relative path has more than 3
  segments. When the timeout of a change notification fires and the text read is empty or
  has 10000 characters or more, no record is stored. When the timeout of a save fires and
  the text read equals the before-content of the save, no record is stored; that
  before-content is the snapshot stored for the document when the save began.
\<close>
theorem heuristic_no_record:
  "(fileSnapshots w (uriToString uri) = None \<and> length (split_sep sep relativePath) > 3 \<longrightarrow>
      onDidChange excl sep (Some relativePath) uri w = w) \<and>
   (map_of (hTimers w) h = Some (ChangeTask uri) \<and>
    (getText opened = [] \<or> length (getText opened) \<ge> 10000) \<longrightarrow>
      heuristicChanges (hTimerFires clock h (Some opened) w) = heuristicChanges w) \<and>
   (map_of (hTimers w) h = Some (SaveTask doc originalContent) \<and> getText opened = originalContent \<longrightarrow>
      heuristicChanges (hTimerFires clock h (Some opened) w) = heuristicChanges w) \<and>
   (hIsEnabled w \<and> scheme doc = ''file'' \<and> \<not> excl (fileName doc) \<and>
    fileSnapshots w (uriString doc) = Some snapshot \<longrightarrow>
      last (hTimers (onWillSaveTextDocument excl doc w)) = (hNextTimeout w, SaveTask doc snapshot))"
  using onWillSave_task [of w doc excl]
  by (auto simp: onDidChange_def hTimerFires_def changeCallback_def saveCallback_def)

text \<open>A path four segments deep, a text of 10000 characters, an empty text, and a save
  that leaves the text as it was.\<close>
theorem heuristic_no_record_witness:
  "hTimers (onDidChange (\<lambda>p. False) CHR ''/'' (Some ''src/a/b/c.ts'')
              \<lparr> fsPath = ''/w/src/a/b/c.ts'', uriToString = ''file:///w/src/a/b/c.ts'' \<rparr>
              (hSetEnabled (\<lambda>p. False) [] True True newHeuristicTracker)) = [] \<and>
   hTimers (onDidChange (\<lambda>p. False) CHR ''/'' (Some ''src/b.ts'') sampleUri
              (hSetEnabled (\<lambda>p. False) [] True True newHeuristicTracker)) =
     [(0, ChangeTask sampleUri)] \<and>
   heuristicChanges
     (hTimerFires sampleClock 0 (Some (sampleDoc (replicate 10000 CHR ''x'')))
        (onDidChange (\<lambda>p. False) CHR ''/'' (Some ''src/b.ts'') sampleUri
           (hSetEnabled (\<lambda>p. False) [] True True newHeuristicTracker))) = [] \<and>
   heuristicChanges
     (hTimerFires sampleClock 0 (Some (sampleDoc []))
        (onDidChange (\<lambda>p. False) CHR ''/'' (Some ''src/b.ts'') sampleUri
           (hSetEnabled (\<lambda>p. False) [] True True newHeuristicTracker))) = [] \<and>
   heuristicChanges
     (hTimerFires sampleClock 0 (Some (sampleDoc ''old''))
        (onWillSaveTextDocument (\<lambda>p. False) (sampleDoc ''old'')
           (hSetEnabled (\<lambda>p. False) [sampleDoc ''old''] True True newHeuristicTracker))) = []"
  using heuristic_no_record
          [where w = "hSetEnabled (\<lambda>p. False) [] True True newHeuristicTracker"
             and uri = "\<lparr> fsPath = ''/w/src/a/b/c.ts'', uriToString = ''file:///w/src/a/b/c.ts'' \<rparr>"
             and sep = "CHR ''/''" and relativePath = "''src/a/b/c.ts''" and excl = "\<lambda>p. False"
             and h = 0 and opened = "sampleDoc []" and clock = sampleClock
             and doc = "sampleDoc ''old''" and originalContent = "''old''" and snapshot = "''old''"]
        heuristic_no_record
          [where w = "onDidChange (\<lambda>p. False) CHR ''/'' (Some ''src/b.ts'') sampleUri
                        (hSetEnabled (\<lambda>p. False) [] True True newHeuristicTracker)"
             and uri = sampleUri
             and sep = "CHR ''/''" and relativePath = "''src/a/b/c.ts''" and excl = "\<lambda>p. False"
             and h = 0 and opened = "sampleDoc (replicate 10000 CHR ''x'')" and clock = sampleClock
             and doc = "sampleDoc ''old''" and originalContent = "''old''" and snapshot = "''old''"]
        heuristic_no_record
          [where w = "onDidChange (\<lambda>p. False) CHR ''/'' (Some ''src/b.ts'') sampleUri
                        (hSetEnabled (\<lambda>p. False) [] True True newHeuristicTracker)"
             and uri = sampleUri
             and sep = "CHR ''/''" and relativePath = "''src/a/b/c.ts''" and excl = "\<lambda>p. False"
             and h = 0 and opened = "sampleDoc []" and clock = sampleClock
             and doc = "sampleDoc ''old''" and originalContent = "''old''" and snapshot = "''old''"]
        heuristic_no_record
          [where w = "onWillSaveTextDocument (\<lambda>p. False) (sampleDoc ''old'')
                        (hSetEnabled (\<lambda>p. False) [sampleDoc ''old''] True True newHeuristicTracker)"
             and uri = sampleUri
             and sep = "CHR ''/''" and relativePath = "''src/a/b/c.ts''" and excl = "\<lambda>p. False"
             and h = 0 and opened = "sampleDoc ''old''" and clock = sampleClock
             and doc = "sampleDoc ''old''" and originalContent = "''old''" and snapshot = "''old''"]
  by (simp add: heuristic_defs split_sep_sample)

text \<open>
  Claim C10. \<open>setEnabled(false)\<close> and \<open>reset()\<close> of the heuristic tracker empty the
  snapshot map and the pending map and disarm every timeout the pending map held; what
  \<open>getHeuristicChanges\<close> returns is the same list before and after.
\<close>
theorem heuristic_changes_survive:
  "fileSnapshots (hSetEnabled excl visible hasWorkspace False w) = Map.empty \<and>
   pendingChanges (hSetEnabled excl visible hasWorkspace False w) = [] \<and>
   (\<forall>p \<in> set (pendingChanges w).
      snd p \<notin> fst ` set (hTimers (hSetEnabled excl visible hasWorkspace False w))) \<and>
   getHeuristicChanges (hSetEnabled excl visible hasWorkspace False w) = getHeuristicChanges w \<and>
   fileSnapshots (hReset w) = Map.empty \<and>
   pendingChanges (hReset w) = [] \<and>
   (\<forall>p \<in> set (pendingChanges w). snd p \<notin> fst ` set (hTimers (hReset w))) \<and>
   getHeuristicChanges (hReset w) = getHeuristicChanges w"
  by (force simp: hSetEnabled_def hReset_def getHeuristicChanges_def hClearTimeouts_fields Let_def)

text \<open>A tracker that holds one record and one pending save.\<close>
theorem heuristic_changes_survive_witness:
  "map fst (hTimers (hRun (\<lambda>p. False) CHR ''/''
           [HSetEnabled [sampleDoc ''old''] True True,
            OnWillSaveTextDocument (sampleDoc ''new''),
            HTimerFires sampleClock 0 (Some (sampleDoc ''new'')),
            OnWillSaveTextDocument (sampleDoc ''newer'')]
           newHeuristicTracker)) = [1] \<and>
   hTimers (hSetEnabled (\<lambda>p. False) [] True False
        (hRun (\<lambda>p. False) CHR ''/''
           [HSetEnabled [sampleDoc ''old''] True True,
            OnWillSaveTextDocument (sampleDoc ''new''),
            HTimerFires sampleClock 0 (Some (sampleDoc ''new'')),
            OnWillSaveTextDocument (sampleDoc ''newer'')]
           newHeuristicTracker)) = [] \<and>
   map filePath (getHeuristicChanges (hSetEnabled (\<lambda>p. False) [] True False
        (hRun (\<lambda>p. False) CHR ''/''
           [HSetEnabled [sampleDoc ''old''] True True,
            OnWillSaveTextDocument (sampleDoc ''new''),
            HTimerFires sampleClock 0 (Some (sampleDoc ''new'')),
            OnWillSaveTextDocument (sampleDoc ''newer'')]
           newHeuristicTracker))) = [''/w/a.txt''] \<and>
   map filePath (getHeuristicChanges (hReset
        (hRun (\<lambda>p. False) CHR ''/''
           [HSetEnabled [sampleDoc ''old''] True True,
            OnWillSaveTextDocument (sampleDoc ''new''),
            HTimerFires sampleClock 0 (Some (sampleDoc ''new'')),
            OnWillSaveTextDocument (sampleDoc ''newer'')]
           newHeuristicTracker))) = [''/w/a.txt'']"
  using heuristic_changes_survive
          [where w = "hRun (\<lambda>p. False) CHR ''/''
                       [HSetEnabled [sampleDoc ''old''] True True,
                        OnWillSaveTextDocument (sampleDoc ''new''),
                        HTimerFires sampleClock 0 (Some (sampleDoc ''new'')),
                        OnWillSaveTextDocument (sampleDoc ''newer'')]
                       newHeuristicTracker"
             and excl = "\<lambda>p. False" and visible = "[]" and hasWorkspace = True]
  by (simp add: heuristic_defs)

end
